theory Spec2Isabelle
  imports Main
begin

section \<open>Data model of \<open>agent_executor/upload.py\<close>\<close>

text \<open>
  The module is glue around collaborators of the langchain library: a base64 decoder, the
  \<open>magic\<close> mime detector, blob parsers, a text splitter and a vector store. The functions of
  the module are embedded below; the collaborators are parameters. Every call of a
  collaborator is recorded as an \<open>event\<close>, in call order, so that statements about which
  calls happen, and in which order, can be made about the embedding.
\<close>

type_synonym bytes = string

text \<open>\<open>langchain.schema.Document\<close>: text and a mutable metadata dict.\<close>

record document =
  page_content :: string
  metadata :: "string \<rightharpoonup> string"

text \<open>\<open>Blob.from_data(data=..., path=..., mime_type=...)\<close>.\<close>

record blob =
  data :: bytes
  path :: "string option"
  mimetype :: "string option"

text \<open>
  The exceptions: \<open>ValueError\<close> and \<open>ImportError\<close> are raised by the module itself,
  \<open>KeyError\<close> by a subscript on the input dict, \<open>CollaboratorError\<close> stands for whatever a
  collaborator raises.
\<close>

datatype error =
    ValueError string
  | ImportError string
  | KeyError string
  | CollaboratorError string

text \<open>
  The collaborator calls, with their arguments; an \<open>add_documents\<close> call also with what it
  returned or raised.
\<close>

datatype event =
    Base64Decode string
  | GuessMimetype bytes
  | LazyParse blob
  | SplitDocuments document
  | AddDocuments "document list" "error + string list"

text \<open>
  A run returns what the Python call returns or raises, the state of the vector store
  afterwards, and the collaborator calls it made.
\<close>

type_synonym ('a, 's) run = "(error + 'a) \<times> 's \<times> event list"

text \<open>
  \<open>parser.lazy_parse(blob)\<close> is a generator: it yields finitely many documents and is then
  exhausted (\<open>None\<close>) or raises (\<open>Some e\<close>).
\<close>

type_synonym base_blob_parser = "blob \<Rightarrow> document list \<times> error option"

text \<open>\<open>text_splitter.split_documents([document])\<close>.\<close>

type_synonym text_splitter = "document \<Rightarrow> document list"

text \<open>
  \<open>vectorstore.add_documents(docs)\<close> on a store in state \<open>'s\<close>: the identifiers it returns or
  the error it raises, and the state it leaves the store in.
\<close>

type_synonym 's vectorstore = "'s \<Rightarrow> document list \<Rightarrow> (error + string list) \<times> 's"

text \<open>The calls \<open>evs\<close> happened before those of the run \<open>r\<close>.\<close>

definition emit :: "event list \<Rightarrow> 'a \<times> 's \<times> event list \<Rightarrow> 'a \<times> 's \<times> event list" where
  "emit evs r = (case r of (x, s, evs') \<Rightarrow> (x, s, evs @ evs'))"

section \<open>Mime type and blob\<close>

definition magic_not_found :: string where
  "magic_not_found =
     ''magic package not found, please install it with `pip install python-magic`''"

text \<open>
  \<open>_guess_mimetype\<close>. The first argument is the \<open>magic\<close> module: \<open>None\<close> when importing it
  fails, otherwise \<open>magic.Magic(mime=True).from_buffer\<close>.
\<close>

definition guess_mimetype :: "(bytes \<Rightarrow> error + string) option \<Rightarrow> bytes \<Rightarrow> error + string" where
  "guess_mimetype magic file_bytes =
     (case magic of
        None \<Rightarrow> Inl (ImportError magic_not_found)
      | Some from_buffer \<Rightarrow> from_buffer file_bytes)"

text \<open>
  The libraries the module calls: \<open>base64.decodebytes\<close>, the \<open>magic\<close> module, langchain's
  \<open>MimeTypeBasedParser\<close> constructor (handlers and fallback parser) and the four parsers
  the module registers.
\<close>

record env =
  decodebytes :: "string \<Rightarrow> error + bytes"
  magic :: "(bytes \<Rightarrow> error + string) option"
  MimeTypeBasedParser ::
    "(string \<times> base_blob_parser) list \<Rightarrow> base_blob_parser option \<Rightarrow> base_blob_parser"
  PyMuPDFParser :: base_blob_parser
  TextParser :: base_blob_parser
  BS4HTMLParser :: base_blob_parser
  MsWordParser :: base_blob_parser

definition get_default_parser :: "env \<Rightarrow> base_blob_parser" where
  "get_default_parser E =
     MimeTypeBasedParser E
       [(''application/pdf'', PyMuPDFParser E),
        (''text/plain'', TextParser E),
        (''text/html'', BS4HTMLParser E),
        (''application/msword'', MsWordParser E),
        (''application/vnd.openxmlformats-officedocument.wordprocessingml.document'',
           MsWordParser E)]
       None"

text \<open>
  \<open>IngestionInput\<close> is a dict at run time; a missing key raises \<open>KeyError\<close>. The detector
  is called, and \<open>GuessMimetype\<close> recorded, only when the \<open>magic\<close> module could be imported.
\<close>

type_synonym ingestion_input = "string \<rightharpoonup> string"

record ingestion_output =
  success :: bool

definition convert_ingestion_input_to_blob ::
  "env \<Rightarrow> ingestion_input \<Rightarrow> (error + blob) \<times> event list" where
  "convert_ingestion_input_to_blob E ingestion_input =
     (case ingestion_input ''base64_file'' of
        None \<Rightarrow> (Inl (KeyError ''base64_file''), [])
      | Some base64_file \<Rightarrow>
          (case decodebytes E base64_file of
             Inl e \<Rightarrow> (Inl e, [Base64Decode base64_file])
           | Inr file_data \<Rightarrow>
               (let evs = Base64Decode base64_file #
                      (case magic E of
                         None \<Rightarrow> []
                       | Some from_buffer \<Rightarrow> [GuessMimetype file_data])
                in case guess_mimetype (magic E) file_data of
                     Inl e \<Rightarrow> (Inl e, evs)
                   | Inr mime \<Rightarrow>
                       (Inr \<lparr>data = file_data, path = ingestion_input ''filename'',
                             mimetype = Some mime\<rparr>,
                        evs))))"

section \<open>The batching ingester\<close>

text \<open>
  \<open>_update_document_metadata\<close> assigns \<open>document.metadata["namespace"]\<close> in place. The
  embedding returns the updated document; the loops below replace every chunk by its
  updated value before the chunk is used again, and the value assigned is the same for all
  chunks of a call, so chunks that share an object are updated alike.
\<close>

definition update_document_metadata :: "document \<Rightarrow> string \<Rightarrow> document" where
  "update_document_metadata document namespace =
     document\<lparr>metadata := (metadata document)(''namespace'' \<mapsto> namespace)\<rparr>"

text \<open>\<open>ids.extend(vectorstore.add_documents(docs_to_index))\<close>.\<close>

definition flush ::
  "'s vectorstore \<Rightarrow> document list \<Rightarrow> string list \<Rightarrow> 's \<Rightarrow> (string list, 's) run" where
  "flush add_documents docs_to_index ids s =
     (case add_documents s docs_to_index of
        (Inl e, s') \<Rightarrow> (Inl e, s', [AddDocuments docs_to_index (Inl e)])
      | (Inr new, s') \<Rightarrow> (Inr (ids @ new), s', [AddDocuments docs_to_index (Inr new)]))"

text \<open>
  The \<open>for\<close> loop of \<open>ingest_blob\<close> over the documents the parser yields, from the buffer
  \<open>docs_to_index\<close>, the identifiers \<open>ids\<close> and the store state \<open>s\<close>. It ends with the buffer
  and the identifiers, or with the error of an \<open>add_documents\<close> call.
\<close>

fun ingest_loop ::
  "text_splitter \<Rightarrow> 's vectorstore \<Rightarrow> string \<Rightarrow> int \<Rightarrow> document list \<Rightarrow>
     document list \<Rightarrow> string list \<Rightarrow> 's \<Rightarrow> (document list \<times> string list, 's) run" where
  "ingest_loop split add_documents namespace batch_size [] docs_to_index ids s =
     (Inr (docs_to_index, ids), s, [])"
| "ingest_loop split add_documents namespace batch_size (document # rest) docs_to_index ids s =
     (let docs = map (\<lambda>doc. update_document_metadata doc namespace) (split document);
          docs_to_index = docs_to_index @ docs
      in if batch_size \<le> int (length docs_to_index) then
           (case flush add_documents docs_to_index ids s of
              (Inl e, s', evs) \<Rightarrow> (Inl e, s', SplitDocuments document # evs)
            | (Inr ids, s', evs) \<Rightarrow>
                emit (SplitDocuments document # evs)
                  (ingest_loop split add_documents namespace batch_size rest [] ids s'))
         else
           emit [SplitDocuments document]
             (ingest_loop split add_documents namespace batch_size rest docs_to_index ids s))"

definition ingest_blob ::
  "blob \<Rightarrow> base_blob_parser \<Rightarrow> text_splitter \<Rightarrow> 's vectorstore \<Rightarrow> string \<Rightarrow> int \<Rightarrow> 's \<Rightarrow>
     (string list, 's) run" where
  "ingest_blob blob parser split add_documents namespace batch_size s =
     (case parser blob of
        (documents, raised) \<Rightarrow>
          emit [LazyParse blob]
            (case ingest_loop split add_documents namespace batch_size documents [] [] s of
               (Inl e, s', evs) \<Rightarrow> (Inl e, s', evs)
             | (Inr (docs_to_index, ids), s', evs) \<Rightarrow>
                 (case raised of
                    Some e \<Rightarrow> (Inl e, s', evs)
                  | None \<Rightarrow>
                      if batch_size \<le> int (length docs_to_index)
                      then emit evs (flush add_documents docs_to_index ids s')
                      else (Inr ids, s', evs))))"

text \<open>
  The loop of \<open>aingest_blob\<close>: it splits and tags each document as \<open>ingest_blob\<close> does, but has
  no \<open>docs_to_index.extend(docs)\<close>.
\<close>

fun aingest_loop ::
  "text_splitter \<Rightarrow> 's vectorstore \<Rightarrow> string \<Rightarrow> int \<Rightarrow> document list \<Rightarrow>
     document list \<Rightarrow> string list \<Rightarrow> 's \<Rightarrow> (document list \<times> string list, 's) run" where
  "aingest_loop split add_documents namespace batch_size [] docs_to_index ids s =
     (Inr (docs_to_index, ids), s, [])"
| "aingest_loop split add_documents namespace batch_size (document # rest) docs_to_index ids s =
     (let docs = map (\<lambda>doc. update_document_metadata doc namespace) (split document)
      in if batch_size \<le> int (length docs_to_index) then
           (case flush add_documents docs_to_index ids s of
              (Inl e, s', evs) \<Rightarrow> (Inl e, s', SplitDocuments document # evs)
            | (Inr ids, s', evs) \<Rightarrow>
                emit (SplitDocuments document # evs)
                  (aingest_loop split add_documents namespace batch_size rest [] ids s'))
         else
           emit [SplitDocuments document]
             (aingest_loop split add_documents namespace batch_size rest docs_to_index ids s))"

definition aingest_blob ::
  "blob \<Rightarrow> base_blob_parser \<Rightarrow> text_splitter \<Rightarrow> 's vectorstore \<Rightarrow> string \<Rightarrow> int \<Rightarrow> 's \<Rightarrow>
     (string list, 's) run" where
  "aingest_blob blob parser split add_documents namespace batch_size s =
     (case parser blob of
        (documents, raised) \<Rightarrow>
          emit [LazyParse blob]
            (case aingest_loop split add_documents namespace batch_size documents [] [] s of
               (Inl e, s', evs) \<Rightarrow> (Inl e, s', evs)
             | (Inr (docs_to_index, ids), s', evs) \<Rightarrow>
                 (case raised of
                    Some e \<Rightarrow> (Inl e, s', evs)
                  | None \<Rightarrow>
                      if batch_size \<le> int (length docs_to_index)
                      then emit evs (flush add_documents docs_to_index ids s')
                      else (Inr ids, s', evs))))"

section \<open>The entrypoint\<close>

text \<open>
  \<open>IngestRunnable\<close>: the vector store field is its \<open>add_documents\<close> method, the state of the
  store is passed to \<open>invoke\<close>.
\<close>

record 's ingest_runnable =
  text_splitter :: text_splitter
  vectorstore :: "'s vectorstore"
  input_key :: string
  namespace :: string

definition invoke ::
  "env \<Rightarrow> 's ingest_runnable \<Rightarrow> ingestion_input \<Rightarrow> 's \<Rightarrow> (ingestion_output, 's) run" where
  "invoke E self input s =
     (if namespace self = [] then (Inl (ValueError ''namespace must be provided''), s, [])
      else
        (case convert_ingestion_input_to_blob E input of
           (Inl e, evs) \<Rightarrow> (Inl e, s, evs)
         | (Inr blob, evs) \<Rightarrow>
             emit evs
               (case ingest_blob blob (get_default_parser E) (text_splitter self)
                       (vectorstore self) (namespace self) 100 s of
                  (Inl e, s', evs') \<Rightarrow> (Inl e, s', evs')
                | (Inr ids, s', evs') \<Rightarrow> (Inr \<lparr>success = True\<rparr>, s', evs'))))"

section \<open>Observations on a run\<close>

text \<open>The batches passed to \<open>add_documents\<close>, in call order.\<close>

fun added :: "event \<Rightarrow> document list list" where
  "added (AddDocuments batch r) = [batch]"
| "added _ = []"

definition batches :: "event list \<Rightarrow> document list list" where
  "batches evs = concat (map added evs)"

text \<open>The identifiers returned by the \<open>add_documents\<close> calls that succeeded, in call order.\<close>

fun returned :: "event \<Rightarrow> string list" where
  "returned (AddDocuments batch (Inr new)) = new"
| "returned _ = []"

definition returned_ids :: "event list \<Rightarrow> string list" where
  "returned_ids evs = concat (map returned evs)"

text \<open>An \<open>add_documents\<close> call that raised.\<close>

fun failed :: "event \<Rightarrow> bool" where
  "failed (AddDocuments batch (Inl e)) = True"
| "failed _ = False"

text \<open>The chunks of one parsed document, tagged with the namespace.\<close>

definition tagged :: "text_splitter \<Rightarrow> string \<Rightarrow> document \<Rightarrow> document list" where
  "tagged split ns document = map (\<lambda>doc. update_document_metadata doc ns) (split document)"

text \<open>
  The state of the store after the given batches were passed to \<open>add_documents\<close> one after
  the other, starting from \<open>s\<close>.
\<close>

definition replay :: "'s vectorstore \<Rightarrow> document list list \<Rightarrow> 's \<Rightarrow> 's" where
  "replay add bs s = fold (\<lambda>b s. snd (add s b)) bs s"

text \<open>
  The buffer \<open>docs_to_index\<close> as the events determine it: a split appends the tagged chunks
  of the document, an \<open>add_documents\<close> call is followed by \<open>docs_to_index = []\<close>. \<open>pending\<close>
  is the buffer after the given events of a run, which starts with the empty buffer.
\<close>

fun buffer_after :: "text_splitter \<Rightarrow> string \<Rightarrow> document list \<Rightarrow> event \<Rightarrow> document list" where
  "buffer_after split ns buf (SplitDocuments d) = buf @ tagged split ns d"
| "buffer_after split ns buf (AddDocuments b r) = []"
| "buffer_after split ns buf _ = buf"

definition pending_from ::
  "text_splitter \<Rightarrow> string \<Rightarrow> document list \<Rightarrow> event list \<Rightarrow> document list" where
  "pending_from split ns buf evs = foldl (buffer_after split ns) buf evs"

definition pending :: "text_splitter \<Rightarrow> string \<Rightarrow> event list \<Rightarrow> document list" where
  "pending split ns evs = pending_from split ns [] evs"

text \<open>
  The documents passed to the splitter, in call order. The loop passes every document it
  takes from the parser to the splitter at once, so these are the documents consumed.
\<close>

fun split_of :: "event \<Rightarrow> document list" where
  "split_of (SplitDocuments d) = [d]"
| "split_of _ = []"

definition splits :: "event list \<Rightarrow> document list" where
  "splits evs = concat (map split_of evs)"

text \<open>The number of chunks the splitter makes of the given documents.\<close>

definition n_chunks :: "text_splitter \<Rightarrow> document list \<Rightarrow> nat" where
  "n_chunks split docs = length (concat (map split docs))"

text \<open>The collaborator calls of a run.\<close>

definition events :: "('a, 's) run \<Rightarrow> event list" where
  "events run = snd (snd run)"

section \<open>Test doubles\<close>

text \<open>
  Small collaborators on which the functions can be evaluated: a parser that yields one
  document per given text, a splitter with one chunk per character, a store that keeps the
  documents in a list and returns their texts as identifiers, and one that raises when its
  capacity would be exceeded.
\<close>

definition page :: "string \<Rightarrow> document" where
  "page text = \<lparr>page_content = text, metadata = Map.empty\<rparr>"

definition pages :: "string list \<Rightarrow> base_blob_parser" where
  "pages texts blob = (map page texts, None)"

text \<open>A parser that yields one document per given text and then raises.\<close>

definition raising_pages :: "string list \<Rightarrow> error \<Rightarrow> base_blob_parser" where
  "raising_pages texts e blob = (map page texts, Some e)"

definition split_chars :: text_splitter where
  "split_chars document = map (\<lambda>c. document\<lparr>page_content := [c]\<rparr>) (page_content document)"

definition memory_store :: "document list vectorstore" where
  "memory_store s docs = (Inr (map page_content docs), s @ docs)"

definition bounded_store :: "nat \<Rightarrow> document list vectorstore" where
  "bounded_store capacity s docs =
     (if capacity < length s + length docs then (Inl (CollaboratorError ''store is full''), s)
      else (Inr (map page_content docs), s @ docs))"

definition no_blob :: blob where
  "no_blob = \<lparr>data = [], path = None, mimetype = None\<rparr>"

definition chunk :: "string \<Rightarrow> string \<Rightarrow> document" where
  "chunk text ns = \<lparr>page_content = text, metadata = [''namespace'' \<mapsto> ns]\<rparr>"

text \<open>
  Doubles for the entrypoint: a splitter that keeps a short text in one chunk, a parser that
  yields the text of the blob as one document, a dispatch on the mime type of the blob over
  the registered handlers, and an environment in which the base64 text of the unit test
  decodes to its plain text and is sniffed as \<open>text/plain\<close>.
\<close>

definition whole_document :: text_splitter where
  "whole_document document = [document]"

definition text_parser :: base_blob_parser where
  "text_parser blob =
     ([\<lparr>page_content = data blob,
        metadata = (case path blob of None \<Rightarrow> Map.empty | Some p \<Rightarrow> [''source'' \<mapsto> p])\<rparr>],
      None)"

definition no_documents :: base_blob_parser where
  "no_documents blob = ([], None)"

definition mime_type_based ::
  "(string \<times> base_blob_parser) list \<Rightarrow> base_blob_parser option \<Rightarrow> base_blob_parser" where
  "mime_type_based handlers fallback blob =
     (case mimetype blob of
        None \<Rightarrow> ([], Some (ValueError ''blob does not have a mimetype''))
      | Some mime \<Rightarrow>
          (case map_of handlers mime of
             Some handler \<Rightarrow> handler blob
           | None \<Rightarrow>
               (case fallback of
                  Some parser \<Rightarrow> parser blob
                | None \<Rightarrow> ([], Some (ValueError (''Unsupported mime type: '' @ mime))))))"

definition test_env :: env where
  "test_env =
     \<lparr>decodebytes = (\<lambda>s. if s = ''VGhpcyBpcyBhIHRlc3QgZmlsZS4='' then Inr ''This is a test file.''
                          else Inl (CollaboratorError ''binascii.Error'')),
      magic = Some (\<lambda>file_bytes. Inr ''text/plain''),
      MimeTypeBasedParser = mime_type_based,
      PyMuPDFParser = no_documents,
      TextParser = text_parser,
      BS4HTMLParser = no_documents,
      MsWordParser = no_documents\<rparr>"

definition test_runnable :: "document list ingest_runnable" where
  "test_runnable =
     \<lparr>text_splitter = whole_document, vectorstore = memory_store,
      input_key = ''file_contents'', namespace = ''test1''\<rparr>"

definition test_blob :: blob where
  "test_blob = \<lparr>data = ''This is a test file.'', path = None, mimetype = Some ''text/plain''\<rparr>"

section \<open>The loop, step by step\<close>

lemma batches_simps [simp]:
  "batches [] = []"
  "batches (ev # evs) = added ev @ batches evs"
  "batches (evs @ evs') = batches evs @ batches evs'"
  by (simp_all add: batches_def)

lemma returned_ids_simps [simp]:
  "returned_ids [] = []"
  "returned_ids (ev # evs) = returned ev @ returned_ids evs"
  "returned_ids (evs @ evs') = returned_ids evs @ returned_ids evs'"
  by (simp_all add: returned_ids_def)

lemma flush_cases:
  obtains (fail) e s' where "flush add buf ids s = (Inl e, s', [AddDocuments buf (Inl e)])"
      "add s buf = (Inl e, s')"
  | (ok) new s' where "flush add buf ids s = (Inr (ids @ new), s', [AddDocuments buf (Inr new)])"
      "add s buf = (Inr new, s')"
proof (cases "add s buf")
  case (Pair r s')
  then show ?thesis
    by (cases r) (auto simp: flush_def intro: fail ok)
qed

lemma ingest_loop_Cons:
  "ingest_loop split add ns bs (d # rest) buf ids s =
     (if bs \<le> int (length (buf @ tagged split ns d)) then
        (case flush add (buf @ tagged split ns d) ids s of
           (Inl e, s', evs) \<Rightarrow> (Inl e, s', SplitDocuments d # evs)
         | (Inr ids', s', evs) \<Rightarrow>
             emit (SplitDocuments d # evs) (ingest_loop split add ns bs rest [] ids' s'))
      else emit [SplitDocuments d] (ingest_loop split add ns bs rest (buf @ tagged split ns d) ids s))"
  by (simp add: tagged_def Let_def)

declare ingest_loop.simps(2) [simp del]

lemma ingest_loop_Cons_cases:
  obtains
    (fail) e s' where
      "bs \<le> int (length (buf @ tagged split ns d))"
      "add s (buf @ tagged split ns d) = (Inl e, s')"
      "ingest_loop split add ns bs (d # rest) buf ids s =
         (Inl e, s', [SplitDocuments d, AddDocuments (buf @ tagged split ns d) (Inl e)])"
  | (flushed) new s1 r s2 evs where
      "bs \<le> int (length (buf @ tagged split ns d))"
      "add s (buf @ tagged split ns d) = (Inr new, s1)"
      "ingest_loop split add ns bs rest [] (ids @ new) s1 = (r, s2, evs)"
      "ingest_loop split add ns bs (d # rest) buf ids s =
         (r, s2, SplitDocuments d # AddDocuments (buf @ tagged split ns d) (Inr new) # evs)"
  | (kept) r s2 evs where
      "\<not> bs \<le> int (length (buf @ tagged split ns d))"
      "ingest_loop split add ns bs rest (buf @ tagged split ns d) ids s = (r, s2, evs)"
      "ingest_loop split add ns bs (d # rest) buf ids s = (r, s2, SplitDocuments d # evs)"
proof (cases "bs \<le> int (length (buf @ tagged split ns d))")
  case True
  show ?thesis
  proof (cases rule: flush_cases [of add "buf @ tagged split ns d" ids s])
    case (fail e s1)
    with True show ?thesis
      by (intro that(1) [of e s1]) (simp_all add: ingest_loop_Cons)
  next
    case (ok new s1)
    obtain r s2 evs where
      "ingest_loop split add ns bs rest [] (ids @ new) s1 = (r, s2, evs)"
      by (cases "ingest_loop split add ns bs rest [] (ids @ new) s1") auto
    with True ok show ?thesis
      by (intro that(2) [of new s1 r s2 evs]) (simp_all add: ingest_loop_Cons emit_def)
  qed
next
  case False
  obtain r s2 evs where
    "ingest_loop split add ns bs rest (buf @ tagged split ns d) ids s = (r, s2, evs)"
    by (cases "ingest_loop split add ns bs rest (buf @ tagged split ns d) ids s") auto
  with False show ?thesis
    by (intro that(3) [of r s2 evs]) (simp_all add: ingest_loop_Cons emit_def)
qed

lemma loop_chunks:
  "ingest_loop split add ns bs docs buf ids s = (Inr (buf', ids'), s', evs) \<Longrightarrow>
     buf @ concat (map (tagged split ns) docs) = concat (batches evs) @ buf' \<and>
     ids' = ids @ returned_ids evs"
proof (induction docs arbitrary: buf ids s evs)
  case Nil
  then show ?case by simp
next
  case (Cons d rest)
  show ?case
  proof (cases rule: ingest_loop_Cons_cases [of bs buf split ns d add s rest ids])
    case (fail e s1)
    with Cons.prems show ?thesis by auto
  next
    case (flushed new s1 r s2 evs2)
    with Cons.prems Cons.IH [of "[]" "ids @ new" s1 evs2] show ?thesis by auto
  next
    case (kept r s2 evs2)
    with Cons.prems Cons.IH [of "buf @ tagged split ns d" ids s evs2] show ?thesis by auto
  qed
qed

lemma loop_store:
  "ingest_loop split add ns bs docs buf ids s = (r, s', evs) \<Longrightarrow>
     s' = replay add (batches evs) s"
proof (induction docs arbitrary: buf ids s evs)
  case Nil
  then show ?case by (simp add: replay_def)
next
  case (Cons d rest)
  show ?case
  proof (cases rule: ingest_loop_Cons_cases [of bs buf split ns d add s rest ids])
    case (fail e s1)
    with Cons.prems show ?thesis by (auto simp: replay_def)
  next
    case (flushed new s1 r s2 evs2)
    with Cons.prems Cons.IH [of "[]" "ids @ new" s1 evs2] show ?thesis by (auto simp: replay_def)
  next
    case (kept r s2 evs2)
    with Cons.prems Cons.IH [of "buf @ tagged split ns d" ids s evs2] show ?thesis by (auto simp: replay_def)
  qed
qed

lemma loop_batch_size:
  "ingest_loop split add ns bs docs buf ids s = (r, s', evs) \<Longrightarrow>
     b \<in> set (batches evs) \<Longrightarrow> bs \<le> int (length b)"
proof (induction docs arbitrary: buf ids s evs)
  case Nil
  then show ?case by simp
next
  case (Cons d rest)
  show ?case
  proof (cases rule: ingest_loop_Cons_cases [of bs buf split ns d add s rest ids])
    case (fail e s1)
    with Cons.prems show ?thesis by auto
  next
    case (flushed new s1 r s2 evs2)
    with Cons.prems Cons.IH [of "[]" "ids @ new" s1 evs2] show ?thesis by auto
  next
    case (kept r s2 evs2)
    with Cons.prems Cons.IH [of "buf @ tagged split ns d" ids s evs2] show ?thesis by auto
  qed
qed

lemma loop_sent:
  "ingest_loop split add ns bs docs buf ids s = (r, s', evs) \<Longrightarrow>
     set (concat (batches evs)) \<subseteq> set buf \<union> set (concat (map (tagged split ns) docs))"
proof (induction docs arbitrary: buf ids s evs)
  case Nil
  then show ?case by simp
next
  case (Cons d rest)
  show ?case
  proof (cases rule: ingest_loop_Cons_cases [of bs buf split ns d add s rest ids])
    case (fail e s1)
    with Cons.prems show ?thesis by fastforce
  next
    case (flushed new s1 r s2 evs2)
    with Cons.prems Cons.IH [of "[]" "ids @ new" s1 evs2] show ?thesis by fastforce
  next
    case (kept r s2 evs2)
    with Cons.prems Cons.IH [of "buf @ tagged split ns d" ids s evs2] show ?thesis by fastforce
  qed
qed

lemma loop_buffer:
  "ingest_loop split add ns bs docs buf ids s = (Inr (buf', ids'), s', evs) \<Longrightarrow>
     int (length buf) < bs \<or> buf = [] \<Longrightarrow> int (length buf') < bs \<or> buf' = []"
proof (induction docs arbitrary: buf ids s evs)
  case Nil
  then show ?case by simp
next
  case (Cons d rest)
  show ?case
  proof (cases rule: ingest_loop_Cons_cases [of bs buf split ns d add s rest ids])
    case (fail e s1)
    with Cons.prems show ?thesis by simp
  next
    case (flushed new s1 r s2 evs2)
    with Cons.prems Cons.IH [of "[]" "ids @ new" s1 evs2] show ?thesis by simp
  next
    case (kept r s2 evs2)
    with Cons.prems(1) Cons.IH [of "buf @ tagged split ns d" ids s evs2] show ?thesis by simp
  qed
qed

lemma loop_failure:
  "ingest_loop split add ns bs docs buf ids s = (r, s', evs) \<Longrightarrow>
     (case r of
        Inl e \<Rightarrow> \<exists>pre b. evs = pre @ [AddDocuments b (Inl e)] \<and> \<not> list_ex failed pre
      | Inr x \<Rightarrow> \<not> list_ex failed evs)"
proof (induction docs arbitrary: buf ids s evs)
  case Nil
  then show ?case by auto
next
  case (Cons d rest)
  show ?case
  proof (cases rule: ingest_loop_Cons_cases [of bs buf split ns d add s rest ids])
    case (fail e s1)
    with Cons.prems have "evs = [SplitDocuments d] @ [AddDocuments (buf @ tagged split ns d) (Inl e)]" "r = Inl e" by auto
    then show ?thesis by (auto simp del: append.simps)
  next
    case (flushed new s1 r2 s2 evs2)
    with Cons.prems Cons.IH [of "[]" "ids @ new" s1 evs2] show ?thesis 
      by (auto split: sum.splits simp: Cons_eq_append_conv)
  next
    case (kept r2 s2 evs2)
    with Cons.prems Cons.IH [of "buf @ tagged split ns d" ids s evs2] show ?thesis 
      by (auto split: sum.splits simp: Cons_eq_append_conv)
  qed
qed


lemma ingest_blob_cases:
  assumes "parser blob = (docs, raised)"
  obtains
    (loop_failed) e s1 evs where
      "ingest_loop split add ns bs docs [] [] s = (Inl e, s1, evs)"
      "ingest_blob blob parser split add ns bs s = (Inl e, s1, LazyParse blob # evs)"
  | (parser_raised) buf ids s1 evs e where
      "ingest_loop split add ns bs docs [] [] s = (Inr (buf, ids), s1, evs)"
      "raised = Some e"
      "ingest_blob blob parser split add ns bs s = (Inl e, s1, LazyParse blob # evs)"
  | (final_failed) buf ids s1 evs e s2 where
      "ingest_loop split add ns bs docs [] [] s = (Inr (buf, ids), s1, evs)"
      "raised = None" "bs \<le> int (length buf)"
      "add s1 buf = (Inl e, s2)"
      "ingest_blob blob parser split add ns bs s =
         (Inl e, s2, LazyParse blob # evs @ [AddDocuments buf (Inl e)])"
  | (final_flushed) buf ids s1 evs new s2 where
      "ingest_loop split add ns bs docs [] [] s = (Inr (buf, ids), s1, evs)"
      "raised = None" "bs \<le> int (length buf)"
      "add s1 buf = (Inr new, s2)"
      "ingest_blob blob parser split add ns bs s =
         (Inr (ids @ new), s2, LazyParse blob # evs @ [AddDocuments buf (Inr new)])"
  | (dropped) buf ids s1 evs where
      "ingest_loop split add ns bs docs [] [] s = (Inr (buf, ids), s1, evs)"
      "raised = None" "\<not> bs \<le> int (length buf)"
      "ingest_blob blob parser split add ns bs s = (Inr ids, s1, LazyParse blob # evs)"
proof -
  obtain r s1 evs where loop: "ingest_loop split add ns bs docs [] [] s = (r, s1, evs)"
    by (cases "ingest_loop split add ns bs docs [] [] s") auto
  show ?thesis
  proof (cases r)
    case (Inl e)
    with loop assms show ?thesis
      by (intro loop_failed [of e s1 evs]) (simp_all add: ingest_blob_def emit_def)
  next
    case (Inr p)
    obtain buf ids where p: "p = (buf, ids)" by (cases p) auto
    show ?thesis
    proof (cases raised)
      case (Some e)
      with loop assms Inr p show ?thesis
        by (intro parser_raised [of buf ids s1 evs e]) (simp_all add: ingest_blob_def emit_def)
    next
      case None
      show ?thesis
      proof (cases "bs \<le> int (length buf)")
        case True
        show ?thesis
        proof (cases rule: flush_cases [of add buf ids s1])
          case (fail e s2)
          with loop assms Inr p None True show ?thesis
            by (intro final_failed [of buf ids s1 evs e s2]) (simp_all add: ingest_blob_def emit_def)
        next
          case (ok new s2)
          with loop assms Inr p None True show ?thesis
            by (intro final_flushed [of buf ids s1 evs new s2]) (simp_all add: ingest_blob_def emit_def)
        qed
      next
        case False
        with loop assms Inr p None show ?thesis
          by (intro dropped [of buf ids s1 evs]) (simp_all add: ingest_blob_def emit_def)
      qed
    qed
  qed
qed


lemma in_batches: "b \<in> set (batches evs) \<longleftrightarrow> (\<exists>res. AddDocuments b res \<in> set evs)"
proof (induction evs)
  case Nil
  then show ?case by simp
next
  case (Cons ev evs)
  then show ?case by (cases ev) auto
qed

lemma replay_append: "replay add (bs @ [b]) s = snd (add (replay add bs s) b)"
  by (simp add: replay_def)

lemma blob_store:
  assumes "ingest_blob blob parser split add ns bs s = (r, s', evs)"
  shows "s' = replay add (batches evs) s"
proof -
  obtain docs raised where p: "parser blob = (docs, raised)" by (cases "parser blob") auto
  from p show ?thesis
  proof (cases rule: ingest_blob_cases [of parser blob docs raised split add ns bs s])
    case (loop_failed e s1 evs1)
    with assms loop_store [OF loop_failed(1)] show ?thesis by auto
  next
    case (parser_raised buf ids s1 evs1 e)
    with assms loop_store [OF parser_raised(1)] show ?thesis by auto
  next
    case (final_failed buf ids s1 evs1 e s2)
    with assms loop_store [OF final_failed(1)] show ?thesis by (auto simp: replay_append)
  next
    case (final_flushed buf ids s1 evs1 new s2)
    with assms loop_store [OF final_flushed(1)] show ?thesis by (auto simp: replay_append)
  next
    case (dropped buf ids s1 evs1)
    with assms loop_store [OF dropped(1)] show ?thesis by auto
  qed
qed

lemma blob_batch_size:
  assumes "ingest_blob blob parser split add ns bs s = (r, s', evs)"
    and "b \<in> set (batches evs)"
  shows "bs \<le> int (length b)"
proof -
  obtain docs raised where p: "parser blob = (docs, raised)" by (cases "parser blob") auto
  from p show ?thesis
  proof (cases rule: ingest_blob_cases [of parser blob docs raised split add ns bs s])
    case (loop_failed e s1 evs1)
    with assms loop_batch_size [OF loop_failed(1), of b] show ?thesis by auto
  next
    case (parser_raised buf ids s1 evs1 e)
    with assms loop_batch_size [OF parser_raised(1), of b] show ?thesis by auto
  next
    case (final_failed buf ids s1 evs1 e s2)
    with assms loop_batch_size [OF final_failed(1), of b] show ?thesis by auto
  next
    case (final_flushed buf ids s1 evs1 new s2)
    with assms loop_batch_size [OF final_flushed(1), of b] show ?thesis by auto
  next
    case (dropped buf ids s1 evs1)
    with assms loop_batch_size [OF dropped(1), of b] show ?thesis by auto
  qed
qed

lemma loop_buffer_sent:
  assumes "ingest_loop split add ns bs docs [] [] s = (Inr (buf, ids), s1, evs)"
  shows "set buf \<subseteq> set (concat (map (tagged split ns) docs))"
proof -
  from loop_chunks [OF assms]
  have "set (concat (map (tagged split ns) docs)) = set (concat (batches evs) @ buf)" by simp
  then show ?thesis by auto
qed

lemma blob_sent:
  assumes "parser blob = (docs, raised)"
    and "ingest_blob blob parser split add ns bs s = (r, s', evs)"
  shows "set (concat (batches evs)) \<subseteq> set (concat (map (tagged split ns) docs))"
  using assms(1)
proof (cases rule: ingest_blob_cases [of parser blob docs raised split add ns bs s])
  case (loop_failed e s1 evs1)
  with assms loop_sent [OF loop_failed(1)] show ?thesis by fastforce
next
  case (parser_raised buf ids s1 evs1 e)
  with assms loop_sent [OF parser_raised(1)] show ?thesis by fastforce
next
  case (final_failed buf ids s1 evs1 e s2)
  with assms loop_sent [OF final_failed(1)] loop_buffer_sent [OF final_failed(1)]
  show ?thesis by fastforce
next
  case (final_flushed buf ids s1 evs1 new s2)
  with assms loop_sent [OF final_flushed(1)] loop_buffer_sent [OF final_flushed(1)]
  show ?thesis by fastforce
next
  case (dropped buf ids s1 evs1)
  with assms loop_sent [OF dropped(1)] show ?thesis by fastforce
qed

lemma blob_failure:
  assumes "ingest_blob blob parser split add ns bs s = (r, s', evs)"
    and "list_ex failed evs"
  shows "\<exists>e b pre. r = Inl e \<and> evs = pre @ [AddDocuments b (Inl e)] \<and> \<not> list_ex failed pre"
proof -
  obtain docs raised where p: "parser blob = (docs, raised)" by (cases "parser blob") auto
  from p show ?thesis
  proof (cases rule: ingest_blob_cases [of parser blob docs raised split add ns bs s])
    case (loop_failed e s1 evs1)
    from loop_failure [OF loop_failed(1)] obtain pre b
      where "evs1 = pre @ [AddDocuments b (Inl e)]" "\<not> list_ex failed pre" by auto
    with assms loop_failed(2) have "r = Inl e"
      "evs = (LazyParse blob # pre) @ [AddDocuments b (Inl e)]" "\<not> list_ex failed (LazyParse blob # pre)"
      by auto
    then show ?thesis by blast
  next
    case (parser_raised buf ids s1 evs1 e)
    with assms loop_failure [OF parser_raised(1)] show ?thesis by auto
  next
    case (final_failed buf ids s1 evs1 e s2)
    with assms loop_failure [OF final_failed(1)] have "r = Inl e"
      "evs = (LazyParse blob # evs1) @ [AddDocuments buf (Inl e)]" "\<not> list_ex failed (LazyParse blob # evs1)"
      by auto
    then show ?thesis by blast
  next
    case (final_flushed buf ids s1 evs1 new s2)
    with assms loop_failure [OF final_flushed(1)] show ?thesis by auto
  next
    case (dropped buf ids s1 evs1)
    with assms loop_failure [OF dropped(1)] show ?thesis by auto
  qed
qed

lemma blob_ids:
  assumes "ingest_blob blob parser split add ns bs s = (Inr ids, s', evs)"
  shows "ids = returned_ids evs"
proof -
  obtain docs raised where p: "parser blob = (docs, raised)" by (cases "parser blob") auto
  from p show ?thesis
  proof (cases rule: ingest_blob_cases [of parser blob docs raised split add ns bs s])
    case (loop_failed e s1 evs1)
    with assms show ?thesis by auto
  next
    case (parser_raised buf ids s1 evs1 e)
    with assms show ?thesis by auto
  next
    case (final_failed buf ids s1 evs1 e s2)
    with assms show ?thesis by auto
  next
    case (final_flushed buf ids1 s1 evs1 new s2)
    with assms loop_chunks [OF final_flushed(1)] show ?thesis by auto
  next
    case (dropped buf ids1 s1 evs1)
    with assms loop_chunks [OF dropped(1)] show ?thesis by auto
  qed
qed


lemmas run_simps = ingest_loop.simps(2) ingest_blob_def flush_def emit_def Let_def
  update_document_metadata_def page_def pages_def split_chars_def memory_store_def
  bounded_store_def chunk_def tagged_def returned_ids_def batches_def replay_def

section \<open>Configuration and dependency errors\<close>

text \<open>
  C9. When the \<open>magic\<close> module cannot be imported, \<open>_guess_mimetype\<close> raises, for every byte
  input, an \<open>ImportError\<close> whose message names the missing package and the command that
  installs it; it returns no mime type.
\<close>

theorem guess_mimetype_magic_missing:
  "guess_mimetype None file_bytes =
     Inl (ImportError
       ''magic package not found, please install it with `pip install python-magic`'')"
  by (simp add: guess_mimetype_def magic_not_found_def)

text \<open>
  C2. With the empty namespace (also the default of the field), \<open>invoke\<close> raises
  \<open>ValueError\<close> for every environment, input and store: the store is left as it was and no
  collaborator is called, so nothing is decoded, sniffed, parsed, split or added.
\<close>

theorem invoke_empty_namespace:
  "invoke E (self\<lparr>namespace := ''''\<rparr>) input s =
     (Inl (ValueError ''namespace must be provided''), s, [])"
  by (simp add: invoke_def)

section \<open>The trailing partial batch\<close>

text \<open>
  C1. When the parser is exhausted and the loop of \<open>ingest_blob\<close> ends with a buffer that is
  not empty but shorter than \<open>batch_size\<close>, \<open>ingest_blob\<close> makes no further
  \<open>add_documents\<close> call: the batches it sent are the tagged chunks without the buffer at
  their end, and it returns the identifiers of those batches only.
\<close>

theorem trailing_partial_batch_dropped:
  assumes "parser blob = (docs, None)"
    and "ingest_loop split add ns bs docs [] [] s = (Inr (buf, ids), s1, evs)"
    and "0 < length buf" and "int (length buf) < bs"
  shows "ingest_blob blob parser split add ns bs s = (Inr ids, s1, LazyParse blob # evs) \<and>
         concat (batches (LazyParse blob # evs)) @ buf = concat (map (tagged split ns) docs) \<and>
         ids = returned_ids (LazyParse blob # evs) \<and>
         s1 = replay add (batches (LazyParse blob # evs)) s"
  using assms(1)
proof (cases rule: ingest_blob_cases [of parser blob docs None split add ns bs s])
  case (loop_failed e s1 evs)
  with assms show ?thesis by simp
next
  case (parser_raised buf ids s1 evs e)
  then show ?thesis by simp
next
  case (final_failed buf ids s1 evs e s2)
  with assms show ?thesis by simp
next
  case (final_flushed buf ids s1 evs new s2)
  with assms show ?thesis by simp
next
  case (dropped buf' ids' s1' evs')
  with assms loop_chunks [OF assms(2)] loop_store [OF assms(2)] show ?thesis by simp
qed

theorem trailing_partial_batch_dropped_witness:
  "pages [''abc'', ''d''] no_blob = (map page [''abc'', ''d''], None) \<and>
   ingest_loop split_chars memory_store ''n'' 3 (map page [''abc'', ''d'']) [] [] [] =
     (Inr ([chunk ''d'' ''n''], [''a'', ''b'', ''c'']),
      [chunk ''a'' ''n'', chunk ''b'' ''n'', chunk ''c'' ''n''],
      [SplitDocuments (page ''abc''),
       AddDocuments [chunk ''a'' ''n'', chunk ''b'' ''n'', chunk ''c'' ''n'']
         (Inr [''a'', ''b'', ''c'']),
       SplitDocuments (page ''d'')]) \<and>
   0 < length [chunk ''d'' ''n''] \<and> int (length [chunk ''d'' ''n'']) < 3 \<and>
   ingest_blob no_blob (pages [''abc'', ''d'']) split_chars memory_store ''n'' 3 [] =
     (Inr [''a'', ''b'', ''c''],
      [chunk ''a'' ''n'', chunk ''b'' ''n'', chunk ''c'' ''n''],
      [LazyParse no_blob, SplitDocuments (page ''abc''),
       AddDocuments [chunk ''a'' ''n'', chunk ''b'' ''n'', chunk ''c'' ''n'']
         (Inr [''a'', ''b'', ''c'']),
       SplitDocuments (page ''d'')])"
proof -
  have p: "pages [''abc'', ''d''] no_blob = (map page [''abc'', ''d''], None)"
    by (simp add: pages_def)
  have l: "ingest_loop split_chars memory_store ''n'' 3 (map page [''abc'', ''d'']) [] [] [] =
     (Inr ([chunk ''d'' ''n''], [''a'', ''b'', ''c'']),
      [chunk ''a'' ''n'', chunk ''b'' ''n'', chunk ''c'' ''n''],
      [SplitDocuments (page ''abc''),
       AddDocuments [chunk ''a'' ''n'', chunk ''b'' ''n'', chunk ''c'' ''n'']
         (Inr [''a'', ''b'', ''c'']),
       SplitDocuments (page ''d'')])"
    by (simp add: run_simps)
  from trailing_partial_batch_dropped
    [where parser = "pages [''abc'', ''d'']" and blob = no_blob, OF p l] p l show ?thesis by simp
qed

section \<open>Namespace of the persisted documents\<close>

text \<open>
  C3. With a non-empty namespace, every document of every batch that \<open>ingest_blob\<close> passes to
  \<open>add_documents\<close> carries that namespace under the key \<open>namespace\<close>: it is a chunk of one
  of the parsed documents whose \<open>namespace\<close> entry was set to the argument of the call,
  whatever the chunk carried under that key before.
\<close>

theorem persisted_documents_carry_namespace:
  assumes "ns \<noteq> []"
    and "parser blob = (docs, raised)"
    and "ingest_blob blob parser split add ns bs s = (r, s', evs)"
    and "AddDocuments batch res \<in> set evs"
    and "doc \<in> set batch"
  shows "metadata doc ''namespace'' = Some ns \<and> metadata doc ''namespace'' \<noteq> Some [] \<and>
         (\<exists>document \<in> set docs. \<exists>chunk \<in> set (split document).
            doc = chunk\<lparr>metadata := (metadata chunk)(''namespace'' \<mapsto> ns)\<rparr>)"
proof -
  from assms(4) have "batch \<in> set (batches evs)"
    by (auto simp: in_batches)
  with assms(5) have "doc \<in> set (concat (batches evs))"
    by auto
  with blob_sent [OF assms(2) assms(3)]
  have "doc \<in> set (concat (map (tagged split ns) docs))"
    by blast
  then obtain document chunk where dc: "document \<in> set docs" "chunk \<in> set (split document)"
    "doc = update_document_metadata chunk ns"
    by (auto simp: tagged_def)
  then have "doc = chunk\<lparr>metadata := (metadata chunk)(''namespace'' \<mapsto> ns)\<rparr>"
    by (simp add: update_document_metadata_def)
  with dc(1,2) assms(1) show ?thesis by auto
qed


theorem persisted_documents_carry_namespace_witness:
  "''n'' \<noteq> [] \<and> pages [''abc'', ''d''] no_blob = (map page [''abc'', ''d''], None) \<and>
   ingest_blob no_blob (pages [''abc'', ''d'']) split_chars memory_store ''n'' 3 [] =
     (Inr [''a'', ''b'', ''c''],
      [chunk ''a'' ''n'', chunk ''b'' ''n'', chunk ''c'' ''n''],
      [LazyParse no_blob, SplitDocuments (page ''abc''),
       AddDocuments [chunk ''a'' ''n'', chunk ''b'' ''n'', chunk ''c'' ''n'']
         (Inr [''a'', ''b'', ''c'']),
       SplitDocuments (page ''d'')]) \<and>
   metadata (chunk ''b'' ''n'') ''namespace'' = Some ''n''"
proof -
  have n: "''n'' \<noteq> []" by simp
  have p: "pages [''abc'', ''d''] no_blob = (map page [''abc'', ''d''], None)"
    by (simp add: pages_def)
  have r: "ingest_blob no_blob (pages [''abc'', ''d'']) split_chars memory_store ''n'' 3 [] =
     (Inr [''a'', ''b'', ''c''],
      [chunk ''a'' ''n'', chunk ''b'' ''n'', chunk ''c'' ''n''],
      [LazyParse no_blob, SplitDocuments (page ''abc''),
       AddDocuments [chunk ''a'' ''n'', chunk ''b'' ''n'', chunk ''c'' ''n'']
         (Inr [''a'', ''b'', ''c'']),
       SplitDocuments (page ''d'')])"
    by (simp add: run_simps)
  have e: "AddDocuments [chunk ''a'' ''n'', chunk ''b'' ''n'', chunk ''c'' ''n'']
         (Inr [''a'', ''b'', ''c'']) \<in> set [LazyParse no_blob, SplitDocuments (page ''abc''),
       AddDocuments [chunk ''a'' ''n'', chunk ''b'' ''n'', chunk ''c'' ''n'']
         (Inr [''a'', ''b'', ''c'']),
       SplitDocuments (page ''d'')]"
    by simp
  have d: "chunk ''b'' ''n'' \<in> set [chunk ''a'' ''n'', chunk ''b'' ''n'', chunk ''c'' ''n'']"
    by simp
  from persisted_documents_carry_namespace
    [where parser = "pages [''abc'', ''d'']" and blob = no_blob, OF n p r e d] n p r
  show ?thesis by simp
qed

section \<open>Sizes of the batches\<close>

lemma blob_events:
  assumes "parser blob = (docs, raised)"
    and "ingest_loop split add ns bs docs [] [] s = (r, s1, evs)"
    and "ingest_blob blob parser split add ns bs s = (r', s', evs')"
  shows "\<exists>post. evs' = LazyParse blob # evs @ post"
  using assms(1)
proof (cases rule: ingest_blob_cases [of parser blob docs raised split add ns bs s])
  case (loop_failed e s1 evs1)
  with assms show ?thesis by auto
next
  case (parser_raised buf ids s1 evs1 e)
  with assms show ?thesis by auto
next
  case (final_failed buf ids s1 evs1 e s2)
  with assms show ?thesis by auto
next
  case (final_flushed buf ids s1 evs1 new s2)
  with assms show ?thesis by auto
next
  case (dropped buf ids s1 evs1)
  with assms show ?thesis by auto
qed

lemma loop_first_flush:
  assumes "bs \<le> int (length (buf @ tagged split ns d))"
    and "ingest_loop split add ns bs (d # rest) buf ids s = (r, s', evs)"
  shows "\<exists>res post. evs = SplitDocuments d # AddDocuments (buf @ tagged split ns d) res # post"
proof (cases rule: ingest_loop_Cons_cases [of bs buf split ns d add s rest ids])
  case (fail e s1)
  with assms show ?thesis by auto
next
  case (flushed new s1 r s2 evs2)
  with assms show ?thesis by auto
next
  case (kept r s2 evs2)
  with assms show ?thesis by auto
qed

text \<open>
  C10. Every batch that \<open>ingest_blob\<close> passes to \<open>add_documents\<close> has at least \<open>batch_size\<close>
  documents, and a batch can have more: when the first parsed document splits into more
  than \<open>batch_size\<close> chunks, all of them are passed in one call.
\<close>

theorem flush_sizes_at_least_batch_size:
  assumes "ingest_blob blob parser split add ns bs s = (r, s', evs)"
  shows "(\<forall>batch res. AddDocuments batch res \<in> set evs \<longrightarrow> bs \<le> int (length batch)) \<and>
         (\<forall>document rest raised.
            parser blob = (document # rest, raised) \<and> bs < int (length (split document)) \<longrightarrow>
            (\<exists>res. AddDocuments (tagged split ns document) res \<in> set evs) \<and>
            bs < int (length (tagged split ns document)))"
proof (intro conjI allI impI)
  fix batch res
  assume "AddDocuments batch res \<in> set evs"
  then show "bs \<le> int (length batch)"
    using blob_batch_size [OF assms, of batch] by (auto simp: in_batches)
next
  fix document rest raised
  assume a: "parser blob = (document # rest, raised) \<and> bs < int (length (split document))"
  then have big: "bs \<le> int (length ([] @ tagged split ns document))"
    by (simp add: tagged_def)
  from a show "bs < int (length (tagged split ns document))"
    by (simp add: tagged_def)
  obtain r1 s1 evs1 where
    loop: "ingest_loop split add ns bs (document # rest) [] [] s = (r1, s1, evs1)"
    by (cases "ingest_loop split add ns bs (document # rest) [] [] s") auto
  from loop_first_flush [OF big loop] obtain res post where
    "evs1 = SplitDocuments document # AddDocuments (tagged split ns document) res # post"
    by auto
  moreover from a have "parser blob = (document # rest, raised)" by simp
  from blob_events [OF this loop assms] obtain post' where "evs = LazyParse blob # evs1 @ post'"
    by auto
  ultimately show "\<exists>res. AddDocuments (tagged split ns document) res \<in> set evs"
    by auto
qed

theorem flush_sizes_at_least_batch_size_witness:
  "ingest_blob no_blob (pages [''abcd'']) split_chars memory_store ''n'' 3 [] =
     (Inr [''a'', ''b'', ''c'', ''d''],
      [chunk ''a'' ''n'', chunk ''b'' ''n'', chunk ''c'' ''n'', chunk ''d'' ''n''],
      [LazyParse no_blob, SplitDocuments (page ''abcd''),
       AddDocuments [chunk ''a'' ''n'', chunk ''b'' ''n'', chunk ''c'' ''n'', chunk ''d'' ''n'']
         (Inr [''a'', ''b'', ''c'', ''d''])]) \<and>
   pages [''abcd''] no_blob = ([page ''abcd''], None) \<and>
   3 < int (length (split_chars (page ''abcd''))) \<and>
   tagged split_chars ''n'' (page ''abcd'') =
     [chunk ''a'' ''n'', chunk ''b'' ''n'', chunk ''c'' ''n'', chunk ''d'' ''n''] \<and>
   (3::int) < int (length [chunk ''a'' ''n'', chunk ''b'' ''n'', chunk ''c'' ''n'', chunk ''d'' ''n''])"
proof -
  have r: "ingest_blob no_blob (pages [''abcd'']) split_chars memory_store ''n'' 3 [] =
     (Inr [''a'', ''b'', ''c'', ''d''],
      [chunk ''a'' ''n'', chunk ''b'' ''n'', chunk ''c'' ''n'', chunk ''d'' ''n''],
      [LazyParse no_blob, SplitDocuments (page ''abcd''),
       AddDocuments [chunk ''a'' ''n'', chunk ''b'' ''n'', chunk ''c'' ''n'', chunk ''d'' ''n'']
         (Inr [''a'', ''b'', ''c'', ''d''])])"
    by (simp add: run_simps)
  have p: "pages [''abcd''] no_blob = ([page ''abcd''], None) \<and>
      3 < int (length (split_chars (page ''abcd'')))"
    by (simp add: pages_def split_chars_def page_def)
  have t: "tagged split_chars ''n'' (page ''abcd'') =
     [chunk ''a'' ''n'', chunk ''b'' ''n'', chunk ''c'' ''n'', chunk ''d'' ''n'']"
    by (simp add: run_simps)
  from flush_sizes_at_least_batch_size [OF r] p t r show ?thesis
    by simp
qed

section \<open>A failing \<open>add_documents\<close> call\<close>

lemma replay_Cons: "replay add (b # bs) s = replay add bs (snd (add s b))"
  by (simp add: replay_def)

lemma replay_Nil: "replay add [] s = s"
  by (simp add: replay_def)

lemma loop_faithful:
  "ingest_loop split add ns bs docs buf ids s = (r, s', evs) \<Longrightarrow>
     evs = pre @ AddDocuments b res # post \<Longrightarrow>
     fst (add (replay add (batches pre) s) b) = res"
proof (induction docs arbitrary: buf ids s evs pre r s')
  case Nil
  then show ?case by simp
next
  case (Cons d rest)
  show ?case
  proof (cases rule: ingest_loop_Cons_cases [of bs buf split ns d add s rest ids])
    case (fail e s1)
    with Cons.prems have "pre = [SplitDocuments d]" "b = buf @ tagged split ns d" "res = Inl e"
      by (auto simp: Cons_eq_append_conv)
    with fail show ?thesis by (simp add: replay_Nil)
  next
    case (flushed new s1 r2 s2 evs2)
    with Cons.prems have
      evs: "SplitDocuments d # AddDocuments (buf @ tagged split ns d) (Inr new) # evs2 =
              pre @ AddDocuments b res # post"
      by simp
    show ?thesis
    proof (cases "pre = [SplitDocuments d]")
      case True
      with evs flushed show ?thesis by (simp add: replay_Nil)
    next
      case False
      with evs obtain pre2 where
        pre: "pre = SplitDocuments d # AddDocuments (buf @ tagged split ns d) (Inr new) # pre2"
        and "evs2 = pre2 @ AddDocuments b res # post"
        by (auto simp: Cons_eq_append_conv)
      from Cons.IH [OF flushed(3) this(2)] pre flushed(2) show ?thesis
        by (simp add: replay_Cons)
    qed
  next
    case (kept r2 s2 evs2)
    with Cons.prems obtain pre2 where
      pre: "pre = SplitDocuments d # pre2" and "evs2 = pre2 @ AddDocuments b res # post"
      by (auto simp: Cons_eq_append_conv)
    from Cons.IH [OF kept(2) this(2)] pre show ?thesis
      by simp
  qed
qed

lemma blob_faithful:
  assumes "ingest_blob blob parser split add ns bs s = (r, s', evs)"
    and "evs = pre @ AddDocuments b res # post"
  shows "fst (add (replay add (batches pre) s) b) = res"
proof -
  obtain docs raised where p: "parser blob = (docs, raised)" by (cases "parser blob") auto
  have in_loop: "fst (add (replay add (batches pre) s) b) = res"
    if loop: "ingest_loop split add ns bs docs [] [] s = (r1, s1, evs1)"
      and evs: "evs = LazyParse blob # evs1" for r1 s1 evs1
  proof -
    from evs assms(2) obtain pre1 where "pre = LazyParse blob # pre1"
      "evs1 = pre1 @ AddDocuments b res # post"
      by (auto simp: Cons_eq_append_conv append_eq_Cons_conv)
    with loop_faithful [OF loop this(2)] show ?thesis by simp
  qed
  have at_end: "fst (add (replay add (batches pre) s) b) = res"
    if loop: "ingest_loop split add ns bs docs [] [] s = (r1, s1, evs1)"
      and evs: "evs = LazyParse blob # evs1 @ [AddDocuments buf res1]"
      and add: "add s1 buf = (res1, s2)" for r1 s1 evs1 buf res1 s2
  proof (cases "post = []")
    case True
    with evs assms(2) have "pre = LazyParse blob # evs1" "b = buf" "res = res1"
      by auto
    with loop_store [OF loop] add show ?thesis by simp
  next
    case False
    then obtain post1 where "post = post1 @ [AddDocuments buf res1]"
      using evs assms(2)
      by (metis append_Cons append_assoc append_butlast_last_id last_appendR last_snoc list.distinct(1))
    with evs assms(2) have "LazyParse blob # evs1 = pre @ AddDocuments b res # post1"
      by simp
    then obtain pre1 where "pre = LazyParse blob # pre1"
      "evs1 = pre1 @ AddDocuments b res # post1"
      by (auto simp: Cons_eq_append_conv)
    with loop_faithful [OF loop this(2)] show ?thesis by simp
  qed
  from p show ?thesis
  proof (cases rule: ingest_blob_cases [of parser blob docs raised split add ns bs s])
    case (loop_failed e s1 evs1)
    with assms(1) have "evs = LazyParse blob # evs1" by auto
    from in_loop [OF loop_failed(1) this] show ?thesis .
  next
    case (parser_raised buf ids s1 evs1 e)
    with assms(1) have "evs = LazyParse blob # evs1" by auto
    from in_loop [OF parser_raised(1) this] show ?thesis .
  next
    case (final_failed buf ids s1 evs1 e s2)
    with assms(1) have "evs = LazyParse blob # evs1 @ [AddDocuments buf (Inl e)]" by auto
    from at_end [OF final_failed(1) this final_failed(4)] show ?thesis .
  next
    case (final_flushed buf ids s1 evs1 new s2)
    with assms(1) have "evs = LazyParse blob # evs1 @ [AddDocuments buf (Inr new)]" by auto
    from at_end [OF final_flushed(1) this final_flushed(4)] show ?thesis .
  next
    case (dropped buf ids s1 evs1)
    with assms(1) have "evs = LazyParse blob # evs1" by auto
    from in_loop [OF dropped(1) this] show ?thesis .
  qed
qed

lemma splits_simps [simp]:
  "splits [] = []"
  "splits (ev # evs) = split_of ev @ splits evs"
  "splits (evs @ evs') = splits evs @ splits evs'"
  by (simp_all add: splits_def)

lemma loop_splits_done:
  "ingest_loop split add ns bs docs buf ids s = (Inr x, s', evs) \<Longrightarrow> splits evs = docs"
proof (induction docs arbitrary: buf ids s evs)
  case Nil
  then show ?case by simp
next
  case (Cons d rest)
  show ?case
  proof (cases rule: ingest_loop_Cons_cases [of bs buf split ns d add s rest ids])
    case (fail e s1)
    with Cons.prems show ?thesis by simp
  next
    case (flushed new s1 r s2 evs2)
    with Cons.prems Cons.IH [of "[]" "ids @ new" s1 evs2] show ?thesis by auto
  next
    case (kept r s2 evs2)
    with Cons.prems Cons.IH [of "buf @ tagged split ns d" ids s evs2] show ?thesis by auto
  qed
qed

lemma loop_failure_consumed:
  "ingest_loop split add ns bs docs buf ids s = (Inl e, s', evs) \<Longrightarrow>
     (\<exists>unread. docs = splits evs @ unread) \<and>
     (\<forall>unread'. ingest_loop split add ns bs (splits evs @ unread') buf ids s = (Inl e, s', evs))"
proof (induction docs arbitrary: buf ids s evs)
  case Nil
  then show ?case by simp
next
  case (Cons d rest)
  show ?case
  proof (cases rule: ingest_loop_Cons_cases [of bs buf split ns d add s rest ids])
    case (fail e1 s1)
    with Cons.prems have evs: "evs = [SplitDocuments d, AddDocuments (buf @ tagged split ns d) (Inl e)]"
      and "e1 = e" "s1 = s'"
      by auto
    with fail(1,2) have
      "\<forall>unread'. ingest_loop split add ns bs (splits evs @ unread') buf ids s = (Inl e, s', evs)"
      by (simp add: ingest_loop_Cons flush_def)
    moreover from evs have "d # rest = splits evs @ rest" by simp
    ultimately show ?thesis by blast
  next
    case (flushed new s1 r2 s2 evs2)
    with Cons.prems have
      loop: "ingest_loop split add ns bs rest [] (ids @ new) s1 = (Inl e, s', evs2)"
      and evs: "evs = SplitDocuments d # AddDocuments (buf @ tagged split ns d) (Inr new) # evs2"
      by auto
    from Cons.IH [OF loop] obtain unread where rest: "rest = splits evs2 @ unread"
      and *: "\<forall>unread'. ingest_loop split add ns bs (splits evs2 @ unread') [] (ids @ new) s1
                = (Inl e, s', evs2)"
      by blast
    from * flushed(1,2) evs have
      "\<forall>unread'. ingest_loop split add ns bs (splits evs @ unread') buf ids s = (Inl e, s', evs)"
      by (simp add: ingest_loop_Cons flush_def emit_def)
    moreover from rest evs have "d # rest = splits evs @ unread" by simp
    ultimately show ?thesis by blast
  next
    case (kept r2 s2 evs2)
    with Cons.prems have
      loop: "ingest_loop split add ns bs rest (buf @ tagged split ns d) ids s = (Inl e, s', evs2)"
      and evs: "evs = SplitDocuments d # evs2"
      by auto
    from Cons.IH [OF loop] obtain unread where rest: "rest = splits evs2 @ unread"
      and *: "\<forall>unread'. ingest_loop split add ns bs (splits evs2 @ unread')
                 (buf @ tagged split ns d) ids s = (Inl e, s', evs2)"
      by blast
    from * kept(1) evs have
      "\<forall>unread'. ingest_loop split add ns bs (splits evs @ unread') buf ids s = (Inl e, s', evs)"
      by (simp add: ingest_loop_Cons emit_def)
    moreover from rest evs have "d # rest = splits evs @ unread" by simp
    ultimately show ?thesis by blast
  qed
qed

lemma not_failed_pre:
  assumes "\<not> list_ex failed pre" and "pre @ [AddDocuments b' (Inl e')] = evs"
    and "AddDocuments b (Inl e) \<in> set evs"
  shows "b = b' \<and> e = e'"
proof -
  from assms(1) have "AddDocuments b (Inl e) \<notin> set pre"
    by (auto simp: list_ex_iff)
  with assms(2,3) show ?thesis by auto
qed

text \<open>
  C7. When an \<open>add_documents\<close> call of \<open>ingest_blob\<close> raises, \<open>ingest_blob\<close> raises the same
  error and returns no identifiers. The failing call is the last collaborator call of the
  run and the only one that failed, so there is no retry and nothing is split afterwards.
  The store is in the state in which the failing call left it, entered from the state that
  the earlier batches produced. The documents consumed, those passed to the splitter, are a
  prefix of what the parser yields, and the run is the same for every parser that yields
  this prefix first, whatever it yields or raises afterwards: nothing after the prefix is
  looked at. The one exception is a failure of the flush after the loop, which needs
  \<open>batch_size \<le> 0\<close> and sends the empty batch: then the parser was exhausted and every
  document had been consumed before the call.
\<close>

theorem add_failure_propagates:
  assumes "parser blob = (docs, raised)"
    and "ingest_blob blob parser split add ns bs s = (r, s', evs)"
    and "AddDocuments batch (Inl e) \<in> set evs"
  shows "r = Inl e \<and>
         (\<exists>pre. evs = pre @ [AddDocuments batch (Inl e)] \<and> \<not> list_ex failed pre \<and>
            add (replay add (batches pre) s) batch = (Inl e, s')) \<and>
         ((\<exists>unread. docs = splits evs @ unread \<and>
             (\<forall>parser' unread' raised'. parser' blob = (splits evs @ unread', raised') \<longrightarrow>
                ingest_blob blob parser' split add ns bs s = (r, s', evs))) \<or>
          (splits evs = docs \<and> raised = None \<and> bs \<le> 0 \<and> batch = []))"
proof -
  from assms(3) have "list_ex failed evs"
    by (force simp: list_ex_iff)
  from blob_failure [OF assms(2) this] obtain e' b' pre where
    r: "r = Inl e'" and evs: "evs = pre @ [AddDocuments b' (Inl e')]" and pre: "\<not> list_ex failed pre"
    by blast
  from not_failed_pre [OF pre evs [symmetric] assms(3)] have eq: "b' = batch" "e' = e"
    by simp_all
  from blob_faithful [OF assms(2), of pre batch "Inl e" "[]"] evs eq
  have "fst (add (replay add (batches pre) s) batch) = Inl e"
    by simp
  moreover from blob_store [OF assms(2)] evs eq
  have "s' = snd (add (replay add (batches pre) s) batch)"
    by (simp add: replay_append)
  ultimately have store: "add (replay add (batches pre) s) batch = (Inl e, s')"
    by (simp add: prod_eq_iff)
  have "(\<exists>unread. docs = splits evs @ unread \<and>
             (\<forall>parser' unread' raised'. parser' blob = (splits evs @ unread', raised') \<longrightarrow>
                ingest_blob blob parser' split add ns bs s = (r, s', evs))) \<or>
          (splits evs = docs \<and> raised = None \<and> bs \<le> 0 \<and> batch = [])"
    using assms(1)
  proof (cases rule: ingest_blob_cases [of parser blob docs raised split add ns bs s])
    case (loop_failed e1 s1 evs1)
    from loop_failure_consumed [OF loop_failed(1)] obtain unread where
      docs: "docs = splits evs1 @ unread"
      and *: "\<forall>unread'. ingest_loop split add ns bs (splits evs1 @ unread') [] [] s
                = (Inl e1, s1, evs1)"
      by blast
    from loop_failed(2) assms(2) have res: "r = Inl e1" "s' = s1" "evs = LazyParse blob # evs1"
      by auto
    with * have "\<forall>parser' unread' raised'. parser' blob = (splits evs @ unread', raised') \<longrightarrow>
        ingest_blob blob parser' split add ns bs s = (r, s', evs)"
      by (simp add: ingest_blob_def emit_def)
    moreover from docs res have "docs = splits evs @ unread" by simp
    ultimately show ?thesis by blast
  next
    case (parser_raised buf ids s1 evs1 e2)
    with assms(2) have "evs = LazyParse blob # evs1" by auto
    with loop_failure [OF parser_raised(1)] assms(3) show ?thesis
      by (auto simp: list_ex_iff)
  next
    case (final_failed buf ids s1 evs1 e2 s2)
    from loop_buffer [OF final_failed(1)] final_failed(3) have "buf = []" "bs \<le> 0"
      by auto
    moreover from final_failed(5) assms(2) have
      evs1: "evs = LazyParse blob # evs1 @ [AddDocuments buf (Inl e2)]"
      by auto
    moreover from loop_failure [OF final_failed(1)] have "\<not> list_ex failed (LazyParse blob # evs1)"
      by simp
    from not_failed_pre [OF this _ assms(3), of buf e2] evs1 have "batch = buf"
      by simp
    moreover from loop_splits_done [OF final_failed(1)] evs1 have "splits evs = docs"
      by simp
    ultimately show ?thesis using final_failed(2) by simp
  next
    case (final_flushed buf ids s1 evs1 new s2)
    with assms(2) have "evs = LazyParse blob # evs1 @ [AddDocuments buf (Inr new)]" by auto
    with loop_failure [OF final_flushed(1)] assms(3) show ?thesis
      by (auto simp: list_ex_iff)
  next
    case (dropped buf ids s1 evs1)
    with assms(2) have "evs = LazyParse blob # evs1" by auto
    with loop_failure [OF dropped(1)] assms(3) show ?thesis
      by (auto simp: list_ex_iff)
  qed
  with r eq evs pre store show ?thesis by blast
qed


theorem add_failure_propagates_witness:
  "pages [''ab'', ''cd'', ''ef''] no_blob = (map page [''ab'', ''cd'', ''ef''], None) \<and>
   ingest_blob no_blob (pages [''ab'', ''cd'', ''ef'']) split_chars (bounded_store 3) ''n'' 2 [] =
     (Inl (CollaboratorError ''store is full''),
      [chunk ''a'' ''n'', chunk ''b'' ''n''],
      [LazyParse no_blob, SplitDocuments (page ''ab''),
       AddDocuments [chunk ''a'' ''n'', chunk ''b'' ''n''] (Inr [''a'', ''b'']),
       SplitDocuments (page ''cd''),
       AddDocuments [chunk ''c'' ''n'', chunk ''d'' ''n'']
         (Inl (CollaboratorError ''store is full''))]) \<and>
   map page [''ab'', ''cd'', ''ef''] =
     splits
       [LazyParse no_blob, SplitDocuments (page ''ab''),
        AddDocuments [chunk ''a'' ''n'', chunk ''b'' ''n''] (Inr [''a'', ''b'']),
        SplitDocuments (page ''cd''),
        AddDocuments [chunk ''c'' ''n'', chunk ''d'' ''n'']
          (Inl (CollaboratorError ''store is full''))] @ [page ''ef''] \<and>
   ingest_blob no_blob (raising_pages [''ab'', ''cd'', ''uv'', ''w''] (ValueError ''broken page''))
       split_chars (bounded_store 3) ''n'' 2 [] =
     (Inl (CollaboratorError ''store is full''),
      [chunk ''a'' ''n'', chunk ''b'' ''n''],
      [LazyParse no_blob, SplitDocuments (page ''ab''),
       AddDocuments [chunk ''a'' ''n'', chunk ''b'' ''n''] (Inr [''a'', ''b'']),
       SplitDocuments (page ''cd''),
       AddDocuments [chunk ''c'' ''n'', chunk ''d'' ''n'']
         (Inl (CollaboratorError ''store is full''))])"
proof -
  let ?evs = "[LazyParse no_blob, SplitDocuments (page ''ab''),
       AddDocuments [chunk ''a'' ''n'', chunk ''b'' ''n''] (Inr [''a'', ''b'']),
       SplitDocuments (page ''cd''),
       AddDocuments [chunk ''c'' ''n'', chunk ''d'' ''n'']
         (Inl (CollaboratorError ''store is full''))]"
  have p: "pages [''ab'', ''cd'', ''ef''] no_blob = (map page [''ab'', ''cd'', ''ef''], None)"
    by (simp add: pages_def)
  have r: "ingest_blob no_blob (pages [''ab'', ''cd'', ''ef'']) split_chars (bounded_store 3)
       ''n'' 2 [] =
     (Inl (CollaboratorError ''store is full''), [chunk ''a'' ''n'', chunk ''b'' ''n''], ?evs)"
    by (simp add: run_simps)
  have e: "AddDocuments [chunk ''c'' ''n'', chunk ''d'' ''n'']
         (Inl (CollaboratorError ''store is full'')) \<in> set ?evs"
    by simp
  have s: "splits ?evs = [page ''ab'', page ''cd'']"
    by simp
  have q: "raising_pages [''ab'', ''cd'', ''uv'', ''w''] (ValueError ''broken page'') no_blob =
      (splits ?evs @ [page ''uv'', page ''w''], Some (ValueError ''broken page''))"
    by (simp add: raising_pages_def)
  from add_failure_propagates
    [where parser = "pages [''ab'', ''cd'', ''ef'']" and blob = no_blob, OF p r e]
  have "\<forall>parser' unread' raised'. parser' no_blob = (splits ?evs @ unread', raised') \<longrightarrow>
      ingest_blob no_blob parser' split_chars (bounded_store 3) ''n'' 2 [] =
        (Inl (CollaboratorError ''store is full''), [chunk ''a'' ''n'', chunk ''b'' ''n''], ?evs)"
    by simp
  with q have "ingest_blob no_blob
      (raising_pages [''ab'', ''cd'', ''uv'', ''w''] (ValueError ''broken page''))
      split_chars (bounded_store 3) ''n'' 2 [] =
        (Inl (CollaboratorError ''store is full''), [chunk ''a'' ''n'', chunk ''b'' ''n''], ?evs)"
    by blast
  with p r s show ?thesis by simp
qed

section \<open>The asynchronous variant\<close>

lemma aingest_loop_small:
  "int (length buf) < bs \<Longrightarrow>
     aingest_loop split add ns bs docs buf ids s = (Inr (buf, ids), s, map SplitDocuments docs)"
  by (induction docs) (simp_all add: emit_def)

lemma aingest_loop_empty:
  "aingest_loop split add ns bs docs [] ids s = (r, s', evs) \<Longrightarrow>
     (\<forall>buf ids'. r = Inr (buf, ids') \<longrightarrow> buf = []) \<and>
     (\<forall>b res. AddDocuments b res \<in> set evs \<longrightarrow> b = [])"
proof (induction docs arbitrary: ids s evs r s')
  case Nil
  then show ?case by auto
next
  case (Cons d rest)
  show ?case
  proof (cases "bs \<le> int (length ([]::document list))")
    case True
    show ?thesis
    proof (cases rule: flush_cases [of add "[]" ids s])
      case (fail e s1)
      with True Cons.prems show ?thesis by auto
    next
      case (ok new s1)
      obtain r2 s2 evs2 where
        rest: "aingest_loop split add ns bs rest [] (ids @ new) s1 = (r2, s2, evs2)"
        by (cases "aingest_loop split add ns bs rest [] (ids @ new) s1") auto
      with True ok Cons.prems have "r = r2"
        "evs = SplitDocuments d # AddDocuments [] (Inr new) # evs2"
        by (auto simp: emit_def)
      with Cons.IH [OF rest] show ?thesis by auto
    qed
  next
    case False
    obtain r2 s2 evs2 where
      rest: "aingest_loop split add ns bs rest [] ids s = (r2, s2, evs2)"
      by (cases "aingest_loop split add ns bs rest [] ids s") auto
    with False Cons.prems have "r = r2" "evs = SplitDocuments d # evs2"
      by (auto simp: emit_def)
    with Cons.IH [OF rest] show ?thesis by auto
  qed
qed

text \<open>
  C5, as amended. For every input and every \<open>batch_size\<close>, \<open>aingest_blob\<close> never extends its
  buffer: after any number of documents the buffer of the loop is still empty, and every
  batch it passes to \<open>add_documents\<close> is empty. With \<open>batch_size \<ge> 1\<close> it makes no
  \<open>add_documents\<close> call at all and leaves the store unchanged, whether the parser is
  exhausted or raises; it returns the empty list of identifiers when the parser is
  exhausted, and raises the parser's error when the parser raises.
\<close>

theorem aingest_blob_persists_nothing:
  assumes "parser blob = (docs, raised)"
    and "aingest_blob blob parser split add ns bs s = (r, s', evs)"
  shows "(\<forall>n buf ids s1 evs1.
            aingest_loop split add ns bs (take n docs) [] [] s = (Inr (buf, ids), s1, evs1) \<longrightarrow>
            buf = []) \<and>
         (\<forall>batch res. AddDocuments batch res \<in> set evs \<longrightarrow> batch = []) \<and>
         (1 \<le> bs \<longrightarrow>
            evs = LazyParse blob # map SplitDocuments docs \<and> s' = s \<and>
            r = (case raised of None \<Rightarrow> Inr [] | Some e \<Rightarrow> Inl e))"
proof (intro conjI allI impI)
  fix n buf ids s1 evs1
  assume "aingest_loop split add ns bs (take n docs) [] [] s = (Inr (buf, ids), s1, evs1)"
  from aingest_loop_empty [OF this] show "buf = []" by simp
next
  fix batch res
  assume a: "AddDocuments batch res \<in> set evs"
  obtain r1 s1 evs1 where loop: "aingest_loop split add ns bs docs [] [] s = (r1, s1, evs1)"
    by (cases "aingest_loop split add ns bs docs [] [] s") auto
  from aingest_loop_empty [OF loop] have
    buf: "\<forall>buf ids'. r1 = Inr (buf, ids') \<longrightarrow> buf = []"
    and sent: "\<forall>b res. AddDocuments b res \<in> set evs1 \<longrightarrow> b = []"
    by simp_all
  from assms loop have "set evs \<subseteq> {LazyParse blob} \<union> set evs1 \<union> {AddDocuments [] res' | res'. True}"
    using buf
    by (auto simp: aingest_blob_def emit_def flush_def split: sum.splits option.splits if_splits prod.splits)
  with a sent show "batch = []" by auto
next
  assume "1 \<le> bs"
  with assms show "evs = LazyParse blob # map SplitDocuments docs"
    by (auto simp: aingest_blob_def aingest_loop_small emit_def split: option.splits)
next
  assume "1 \<le> bs"
  with assms show "s' = s"
    by (auto simp: aingest_blob_def aingest_loop_small emit_def split: option.splits)
next
  assume "1 \<le> bs"
  with assms show "r = (case raised of None \<Rightarrow> Inr [] | Some e \<Rightarrow> Inl e)"
    by (auto simp: aingest_blob_def aingest_loop_small emit_def split: option.splits)
qed

text \<open>
  C5 as stated fails when the parser raises: \<open>aingest_blob\<close> then raises that error and
  returns no list. Here the parser yields one document and raises, as the default parser
  does on a mime type it has no handler for.
\<close>

theorem aingest_blob_raises_with_parser:
  "aingest_blob no_blob (raising_pages [''ab''] (ValueError ''Unsupported mime type: image/png''))
       split_chars memory_store ''n'' 1 [] =
     (Inl (ValueError ''Unsupported mime type: image/png''), [],
      [LazyParse no_blob, SplitDocuments (page ''ab'')])"
  by (simp add: aingest_blob_def raising_pages_def emit_def page_def)

theorem aingest_blob_persists_nothing_witness:
  "pages [''abc'', ''d''] no_blob = (map page [''abc'', ''d''], None) \<and>
   aingest_blob no_blob (pages [''abc'', ''d'']) split_chars memory_store ''n'' 1 [] =
     (Inr [], [], [LazyParse no_blob, SplitDocuments (page ''abc''), SplitDocuments (page ''d'')]) \<and>
   (1::int) \<le> 1 \<and>
   aingest_loop split_chars memory_store ''n'' 1 (take 1 (map page [''abc'', ''d''])) [] [] [] =
     (Inr ([], []), [], [SplitDocuments (page ''abc'')])"
proof -
  have p: "pages [''abc'', ''d''] no_blob = (map page [''abc'', ''d''], None)"
    by (simp add: pages_def)
  have r: "aingest_blob no_blob (pages [''abc'', ''d'']) split_chars memory_store ''n'' 1 [] =
     (Inr [], [], [LazyParse no_blob, SplitDocuments (page ''abc''), SplitDocuments (page ''d'')])"
    by (simp add: aingest_blob_def pages_def emit_def)
  have l: "aingest_loop split_chars memory_store ''n'' 1 (take 1 (map page [''abc'', ''d''])) [] [] [] =
     (Inr ([], []), [], [SplitDocuments (page ''abc'')])"
    by (simp add: emit_def)
  from aingest_blob_persists_nothing
    [where parser = "pages [''abc'', ''d'']" and blob = no_blob, OF p r] p r l
  show ?thesis by simp
qed

section \<open>The end-to-end scenario of the unit test\<close>

text \<open>
  C8. The claim expects one persisted chunk and one identifier for the input whose
  \<open>base64_file\<close> encodes \<open>This is a test file.\<close>, with namespace \<open>test1\<close> and the default
  batch size. The code does not do that: the text is parsed into one document and split
  into one chunk, the buffer of one chunk is below the batch size of 100, and neither the
  loop nor the final flush calls \<open>add_documents\<close>. \<open>invoke\<close> reports success with the store
  empty, and \<open>ingest_blob\<close> returns no identifier.
\<close>

theorem test_file_is_not_persisted:
  "invoke test_env test_runnable [''base64_file'' \<mapsto> ''VGhpcyBpcyBhIHRlc3QgZmlsZS4=''] [] =
     (Inr \<lparr>success = True\<rparr>, [],
      [Base64Decode ''VGhpcyBpcyBhIHRlc3QgZmlsZS4='', GuessMimetype ''This is a test file.'',
       LazyParse test_blob,
       SplitDocuments \<lparr>page_content = ''This is a test file.'', metadata = Map.empty\<rparr>]) \<and>
   ingest_blob test_blob (get_default_parser test_env) whole_document memory_store ''test1'' 100 [] =
     (Inr [], [],
      [LazyParse test_blob,
       SplitDocuments \<lparr>page_content = ''This is a test file.'', metadata = Map.empty\<rparr>])"
  by (simp add: invoke_def convert_ingestion_input_to_blob_def guess_mimetype_def test_env_def
      test_runnable_def test_blob_def get_default_parser_def mime_type_based_def text_parser_def
      whole_document_def run_simps)

section \<open>When a flush happens\<close>

lemma pending_from_simps [simp]:
  "pending_from split ns buf [] = buf"
  "pending_from split ns buf (ev # evs) = pending_from split ns (buffer_after split ns buf ev) evs"
  "pending_from split ns buf (evs @ evs') =
     pending_from split ns (pending_from split ns buf evs) evs'"
  by (simp_all add: pending_from_def)

lemma loop_flush_follows:
  "ingest_loop split add ns bs docs buf ids s = (r, s', evs) \<Longrightarrow>
     evs = pre @ SplitDocuments d # post \<Longrightarrow>
     bs \<le> int (length (pending_from split ns buf (pre @ [SplitDocuments d]))) \<Longrightarrow>
     \<exists>res post'. post = AddDocuments (pending_from split ns buf (pre @ [SplitDocuments d])) res # post'"
proof (induction docs arbitrary: buf ids s evs pre r s')
  case Nil
  then show ?case by simp
next
  case (Cons d0 rest)
  show ?case
  proof (cases rule: ingest_loop_Cons_cases [of bs buf split ns d0 add s rest ids])
    case (fail e s1)
    with Cons.prems(1,2) have "pre = []" "d = d0"
      "post = [AddDocuments (buf @ tagged split ns d0) (Inl e)]"
      by (auto simp: Cons_eq_append_conv append_eq_Cons_conv)
    then show ?thesis by simp
  next
    case (flushed new s1 r2 s2 evs2)
    with Cons.prems(1,2) have
      evs: "SplitDocuments d0 # AddDocuments (buf @ tagged split ns d0) (Inr new) # evs2 =
              pre @ SplitDocuments d # post"
      by auto
    show ?thesis
    proof (cases pre)
      case Nil
      with evs show ?thesis by auto
    next
      case (Cons ev pre1)
      with evs obtain pre2 where
        pre: "pre = SplitDocuments d0 # AddDocuments (buf @ tagged split ns d0) (Inr new) # pre2"
        and "evs2 = pre2 @ SplitDocuments d # post"
        by (auto simp: Cons_eq_append_conv)
      from Cons.IH [OF flushed(3) this(2)] Cons.prems(3) pre show ?thesis
        by simp
    qed
  next
    case (kept r2 s2 evs2)
    with Cons.prems(1,2) have evs: "SplitDocuments d0 # evs2 = pre @ SplitDocuments d # post"
      by auto
    show ?thesis
    proof (cases pre)
      case Nil
      with evs kept(1) Cons.prems(3) show ?thesis by auto
    next
      case (Cons ev pre1)
      with evs have pre: "pre = SplitDocuments d0 # pre1"
        and "evs2 = pre1 @ SplitDocuments d # post"
        by auto
      from Cons.IH [OF kept(2) this(2)] Cons.prems(3) pre show ?thesis
        by simp
    qed
  qed
qed

lemma loop_flush_precedes:
  "ingest_loop split add ns bs docs buf ids s = (r, s', evs) \<Longrightarrow>
     evs = pre @ AddDocuments b res # post \<Longrightarrow>
     (\<exists>pre' d. pre = pre' @ [SplitDocuments d]) \<and> b = pending_from split ns buf pre \<and>
     bs \<le> int (length b)"
proof (induction docs arbitrary: buf ids s evs pre r s')
  case Nil
  then show ?case by simp
next
  case (Cons d0 rest)
  show ?case
  proof (cases rule: ingest_loop_Cons_cases [of bs buf split ns d0 add s rest ids])
    case (fail e s1)
    with Cons.prems have "pre = [] @ [SplitDocuments d0]" "b = buf @ tagged split ns d0"
      by (auto simp: Cons_eq_append_conv append_eq_Cons_conv)
    with fail(1) show ?thesis by (simp del: append_Nil)
  next
    case (flushed new s1 r2 s2 evs2)
    with Cons.prems have
      evs: "SplitDocuments d0 # AddDocuments (buf @ tagged split ns d0) (Inr new) # evs2 =
              pre @ AddDocuments b res # post"
      by auto
    show ?thesis
    proof (cases "pre = [SplitDocuments d0]")
      case True
      with evs flushed(1) have "pre = [] @ [SplitDocuments d0]" "b = buf @ tagged split ns d0"
        by auto
      with flushed(1) show ?thesis by (simp del: append_Nil)
    next
      case False
      with evs obtain pre2 where
        pre: "pre = SplitDocuments d0 # AddDocuments (buf @ tagged split ns d0) (Inr new) # pre2"
        and "evs2 = pre2 @ AddDocuments b res # post"
        by (auto simp: Cons_eq_append_conv)
      from Cons.IH [OF flushed(3) this(2)] obtain pre' d where
        "pre2 = pre' @ [SplitDocuments d]" "b = pending_from split ns [] pre2" "bs \<le> int (length b)"
        by blast
      with pre have
        "pre = (SplitDocuments d0 # AddDocuments (buf @ tagged split ns d0) (Inr new) # pre')
                 @ [SplitDocuments d]"
        "b = pending_from split ns buf pre" "bs \<le> int (length b)"
        by simp_all
      then show ?thesis by blast
    qed
  next
    case (kept r2 s2 evs2)
    with Cons.prems obtain pre1 where pre: "pre = SplitDocuments d0 # pre1"
      and "evs2 = pre1 @ AddDocuments b res # post"
      by (auto simp: Cons_eq_append_conv)
    from Cons.IH [OF kept(2) this(2)] obtain pre' d where
      "pre1 = pre' @ [SplitDocuments d]" "b = pending_from split ns (buf @ tagged split ns d0) pre1"
      "bs \<le> int (length b)"
      by blast
    with pre have "pre = (SplitDocuments d0 # pre') @ [SplitDocuments d]"
      "b = pending_from split ns buf pre" "bs \<le> int (length b)"
      by simp_all
    then show ?thesis by blast
  qed
qed


lemma blob_no_final_flush:
  assumes "1 \<le> bs" and "parser blob = (docs, raised)"
    and "ingest_blob blob parser split add ns bs s = (r, s', evs)"
  obtains r1 evs1 where "ingest_loop split add ns bs docs [] [] s = (r1, s', evs1)"
    and "evs = LazyParse blob # evs1"
    and "\<And>ids. r = Inr ids \<Longrightarrow> \<exists>buf. r1 = Inr (buf, ids)"
  using assms(2)
proof (cases rule: ingest_blob_cases [of parser blob docs raised split add ns bs s])
  case (loop_failed e s1 evs1)
  with assms(3) that [of "Inl e" evs1] show ?thesis by auto
next
  case (parser_raised buf ids s1 evs1 e)
  with assms(3) that [of "Inr (buf, ids)" evs1] show ?thesis by auto
next
  case (final_failed buf ids s1 evs1 e s2)
  with loop_buffer [OF final_failed(1)] assms(1) show ?thesis by auto
next
  case (final_flushed buf ids s1 evs1 new s2)
  with loop_buffer [OF final_flushed(1)] assms(1) show ?thesis by auto
next
  case (dropped buf ids s1 evs1)
  with assms(3) that [of "Inr (buf, ids)" evs1] show ?thesis by auto
qed

text \<open>
  C6, as amended. For \<open>batch_size \<ge> 1\<close>: in every run of \<open>ingest_blob\<close>, the split of a
  document is directly followed by an \<open>add_documents\<close> call exactly when the buffer, with the
  chunks of that document appended, has at least \<open>batch_size\<close> documents, and the call then
  carries that whole buffer. Every \<open>add_documents\<close> call directly follows the split of a
  document, carries the whole buffer accumulated since the previous call (the buffer is
  cleared by a call), and is recorded with what the store returned for it. The value
  returned is the concatenation, in call order, of the identifier lists the calls returned.
\<close>

theorem flush_exactly_at_threshold:
  assumes "1 \<le> bs"
    and "ingest_blob blob parser split add ns bs s = (r, s', evs)"
  shows "(\<forall>pre d post. evs = pre @ SplitDocuments d # post \<longrightarrow>
            (bs \<le> int (length (pending split ns (pre @ [SplitDocuments d]))) \<longleftrightarrow>
             (\<exists>res post'.
                post = AddDocuments (pending split ns (pre @ [SplitDocuments d])) res # post'))) \<and>
         (\<forall>pre b res post. evs = pre @ AddDocuments b res # post \<longrightarrow>
            (\<exists>pre' d. pre = pre' @ [SplitDocuments d]) \<and> b = pending split ns pre \<and>
            fst (add (replay add (batches pre) s) b) = res) \<and>
         (\<forall>ids. r = Inr ids \<longrightarrow> ids = returned_ids evs)"
proof -
  obtain docs raised where p: "parser blob = (docs, raised)" by (cases "parser blob") auto
  from assms(1) p assms(2) obtain r1 evs1 where
    loop: "ingest_loop split add ns bs docs [] [] s = (r1, s', evs1)"
    and evs: "evs = LazyParse blob # evs1"
    by (rule blob_no_final_flush)
  have precedes: "(\<exists>pre' d. pre = pre' @ [SplitDocuments d]) \<and> b = pending split ns pre \<and>
      bs \<le> int (length b)"
    if "evs = pre @ AddDocuments b res # post" for pre b res post
  proof -
    from that evs obtain pre1 where pre: "pre = LazyParse blob # pre1"
      and "evs1 = pre1 @ AddDocuments b res # post"
      by (auto simp: Cons_eq_append_conv append_eq_Cons_conv)
    from loop_flush_precedes [OF loop this(2)] obtain pre' d where
      "pre1 = pre' @ [SplitDocuments d]" "b = pending_from split ns [] pre1" "bs \<le> int (length b)"
      by blast
    with pre have "pre = (LazyParse blob # pre') @ [SplitDocuments d]"
      "b = pending split ns pre" "bs \<le> int (length b)"
      by (simp_all add: pending_def)
    then show ?thesis by blast
  qed
  have follows: "\<exists>res post'.
      post = AddDocuments (pending split ns (pre @ [SplitDocuments d])) res # post'"
    if "evs = pre @ SplitDocuments d # post"
      and "bs \<le> int (length (pending split ns (pre @ [SplitDocuments d])))" for pre d post
  proof -
    from that(1) evs obtain pre1 where pre: "pre = LazyParse blob # pre1"
      and evs1: "evs1 = pre1 @ SplitDocuments d # post"
      by (auto simp: Cons_eq_append_conv append_eq_Cons_conv)
    from pre have eq: "pending split ns (pre @ [SplitDocuments d]) =
        pending_from split ns [] (pre1 @ [SplitDocuments d])"
      by (simp add: pending_def)
    from loop_flush_follows [OF loop evs1] that(2) eq show ?thesis
      by simp
  qed
  have "bs \<le> int (length (pending split ns (pre @ [SplitDocuments d]))) \<longleftrightarrow>
         (\<exists>res post'.
            post = AddDocuments (pending split ns (pre @ [SplitDocuments d])) res # post')"
    if e: "evs = pre @ SplitDocuments d # post" for pre d post
  proof
    assume "bs \<le> int (length (pending split ns (pre @ [SplitDocuments d])))"
    with e show "\<exists>res post'.
        post = AddDocuments (pending split ns (pre @ [SplitDocuments d])) res # post'"
      by (rule follows)
  next
    assume "\<exists>res post'.
        post = AddDocuments (pending split ns (pre @ [SplitDocuments d])) res # post'"
    then obtain res post' where
      "post = AddDocuments (pending split ns (pre @ [SplitDocuments d])) res # post'"
      by blast
    with e have "evs = (pre @ [SplitDocuments d]) @
        AddDocuments (pending split ns (pre @ [SplitDocuments d])) res # post'"
      by simp
    from precedes [OF this]
    show "bs \<le> int (length (pending split ns (pre @ [SplitDocuments d])))"
      by simp
  qed
  moreover have "(\<exists>pre' d. pre = pre' @ [SplitDocuments d]) \<and> b = pending split ns pre \<and>
      fst (add (replay add (batches pre) s) b) = res"
    if e: "evs = pre @ AddDocuments b res # post" for pre b res post
    using precedes [OF e] blob_faithful [OF assms(2) e] by simp
  moreover have "ids = returned_ids evs" if "r = Inr ids" for ids
    using blob_ids [of blob parser split add ns bs s ids s' evs] assms(2) that by simp
  ultimately show ?thesis by blast
qed

text \<open>
  C6 as stated fails for \<open>batch_size \<le> 0\<close>: the check after the loop then flushes the empty
  buffer. With \<open>batch_size = 0\<close> and a parser that yields nothing, \<open>add_documents\<close> is called
  once, on the empty batch, though no document was processed.
\<close>

theorem final_flush_without_document:
  "ingest_blob no_blob no_documents split_chars memory_store ''n'' 0 [] =
     (Inr [], [], [LazyParse no_blob, AddDocuments [] (Inr [])])"
  by (simp add: no_documents_def run_simps)


theorem flush_exactly_at_threshold_witness:
  "(1::int) \<le> 3 \<and>
   ingest_blob no_blob (pages [''abc'', ''d'']) split_chars memory_store ''n'' 3 [] =
     (Inr [''a'', ''b'', ''c''],
      [chunk ''a'' ''n'', chunk ''b'' ''n'', chunk ''c'' ''n''],
      [LazyParse no_blob, SplitDocuments (page ''abc''),
       AddDocuments [chunk ''a'' ''n'', chunk ''b'' ''n'', chunk ''c'' ''n'']
         (Inr [''a'', ''b'', ''c'']),
       SplitDocuments (page ''d'')]) \<and>
   pending split_chars ''n'' [LazyParse no_blob, SplitDocuments (page ''abc'')] =
     [chunk ''a'' ''n'', chunk ''b'' ''n'', chunk ''c'' ''n''] \<and>
   pending split_chars ''n''
     [LazyParse no_blob, SplitDocuments (page ''abc''),
      AddDocuments [chunk ''a'' ''n'', chunk ''b'' ''n'', chunk ''c'' ''n'']
        (Inr [''a'', ''b'', ''c'']),
      SplitDocuments (page ''d'')] = [chunk ''d'' ''n''] \<and>
   returned_ids
     [LazyParse no_blob, SplitDocuments (page ''abc''),
      AddDocuments [chunk ''a'' ''n'', chunk ''b'' ''n'', chunk ''c'' ''n'']
        (Inr [''a'', ''b'', ''c'']),
      SplitDocuments (page ''d'')] = [''a'', ''b'', ''c'']"
proof -
  have b: "(1::int) \<le> 3" by simp
  have r: "ingest_blob no_blob (pages [''abc'', ''d'']) split_chars memory_store ''n'' 3 [] =
     (Inr [''a'', ''b'', ''c''],
      [chunk ''a'' ''n'', chunk ''b'' ''n'', chunk ''c'' ''n''],
      [LazyParse no_blob, SplitDocuments (page ''abc''),
       AddDocuments [chunk ''a'' ''n'', chunk ''b'' ''n'', chunk ''c'' ''n'']
         (Inr [''a'', ''b'', ''c'']),
       SplitDocuments (page ''d'')])"
    by (simp add: run_simps)
  have t: "tagged split_chars ''n'' (page ''abc'') =
      [chunk ''a'' ''n'', chunk ''b'' ''n'', chunk ''c'' ''n'']"
    "tagged split_chars ''n'' (page ''d'') = [chunk ''d'' ''n'']"
    by (simp_all add: run_simps)
  from flush_exactly_at_threshold [OF b r] r t show ?thesis
    by (simp add: pending_def)
qed

section \<open>Number and size of the batches\<close>

lemma n_chunks_simps [simp]:
  "n_chunks split [] = 0"
  "n_chunks split (d # docs) = length (split d) + n_chunks split docs"
  by (simp_all add: n_chunks_def)

lemma length_tagged [simp]: "length (tagged split ns d) = length (split d)"
  by (simp add: tagged_def)

lemma multiple_ge:
  assumes "1 \<le> bs" and "1 \<le> j"
  shows "bs \<le> int j * bs"
  using mult_right_mono [of 1 "int j" bs] assms by simp

lemma loop_aligned:
  assumes bs: "1 \<le> bs"
  shows "ingest_loop split add ns bs docs buf ids s = (Inr (buf', ids'), s', evs) \<Longrightarrow>
     int (length buf) < bs \<Longrightarrow>
     (\<forall>j. 1 \<le> j \<and> j \<le> k \<longrightarrow>
        (\<exists>m. int (length buf) + int (n_chunks split (take m docs)) = int j * bs)) \<Longrightarrow>
     int (length buf) + int (n_chunks split docs) = int k * bs \<Longrightarrow>
     length (batches evs) = k \<and> (\<forall>b\<in>set (batches evs). int (length b) = bs) \<and> buf' = []"
proof (induction docs arbitrary: buf ids s evs k)
  case Nil
  have "k = 0"
  proof (rule ccontr)
    assume "k \<noteq> 0"
    then have "1 \<le> k" by simp
    then have "bs \<le> int k * bs" by (rule multiple_ge [OF bs])
    with Nil.prems(2,4) show False by simp
  qed
  with Nil.prems(1,4) show ?case by auto
next
  case (Cons d rest)
  have step: "\<exists>m. int (length buf) + int (length (split d)) + int (n_chunks split (take m rest))
      = int j * bs" if "1 \<le> j" "j \<le> k" for j
  proof -
    from Cons.prems(3) that obtain m where
      m: "int (length buf) + int (n_chunks split (take m (d # rest))) = int j * bs"
      by blast
    have ge: "bs \<le> int j * bs"
      by (rule multiple_ge [OF bs that(1)])
    have "m \<noteq> 0"
    proof
      assume "m = 0"
      with m have "int (length buf) = int j * bs" by simp
      with ge Cons.prems(2) show False by linarith
    qed
    then obtain m' where "m = Suc m'" by (cases m) auto
    with m have "int (length buf) + int (length (split d)) + int (n_chunks split (take m' rest))
        = int j * bs"
      by simp
    then show ?thesis by (rule exI)
  qed
  show ?case
  proof (cases rule: ingest_loop_Cons_cases [of bs buf split ns d add s rest ids])
    case (fail e s1)
    with Cons.prems(1) show ?thesis by simp
  next
    case (flushed new s1 r2 s2 evs2)
    with Cons.prems(1) have
      loop: "ingest_loop split add ns bs rest [] (ids @ new) s1 = (Inr (buf', ids'), s', evs2)"
      and evs: "evs = SplitDocuments d # AddDocuments (buf @ tagged split ns d) (Inr new) # evs2"
      by auto
    from flushed(1) have big: "bs \<le> int (length buf) + int (length (split d))"
      by simp
    have k: "1 \<le> k"
    proof (rule ccontr)
      assume "\<not> 1 \<le> k"
      then have "k = 0" by simp
      with Cons.prems(4) big bs show False by simp
    qed
    from step [of 1] k obtain m where
      "int (length buf) + int (length (split d)) + int (n_chunks split (take m rest)) = bs"
      by auto
    with big have full: "int (length buf) + int (length (split d)) = bs"
      by linarith
    have "\<forall>j. 1 \<le> j \<and> j \<le> k - 1 \<longrightarrow>
        (\<exists>m. int (length ([]::document list)) + int (n_chunks split (take m rest)) = int j * bs)"
    proof (intro allI impI)
      fix j assume "1 \<le> j \<and> j \<le> k - 1"
      then have "1 \<le> Suc j" "Suc j \<le> k" by auto
      from step [OF this] obtain m where
        "int (length buf) + int (length (split d)) + int (n_chunks split (take m rest))
           = int (Suc j) * bs"
        by blast
      with full have "int (n_chunks split (take m rest)) = int j * bs"
        by (simp add: algebra_simps)
      then show "\<exists>m. int (length ([]::document list)) + int (n_chunks split (take m rest))
          = int j * bs"
        by auto
    qed
    moreover from Cons.prems(4) full k have
      "int (length ([]::document list)) + int (n_chunks split rest) = int (k - 1) * bs"
      by (simp add: algebra_simps of_nat_diff)
    moreover from bs have "int (length ([]::document list)) < bs" by simp
    ultimately have "length (batches evs2) = k - 1 \<and>
        (\<forall>b\<in>set (batches evs2). int (length b) = bs) \<and> buf' = []"
      using Cons.IH [OF loop] by blast
    with evs k full show ?thesis by auto
  next
    case (kept r2 s2 evs2)
    with Cons.prems(1) have
      loop: "ingest_loop split add ns bs rest (buf @ tagged split ns d) ids s
               = (Inr (buf', ids'), s', evs2)"
      and evs: "evs = SplitDocuments d # evs2"
      by auto
    from kept(1) have small: "int (length (buf @ tagged split ns d)) < bs"
      by simp
    have "\<forall>j. 1 \<le> j \<and> j \<le> k \<longrightarrow>
        (\<exists>m. int (length (buf @ tagged split ns d)) + int (n_chunks split (take m rest))
           = int j * bs)"
      using step by simp
    moreover from Cons.prems(4) have
      "int (length (buf @ tagged split ns d)) + int (n_chunks split rest) = int k * bs"
      by simp
    ultimately have "length (batches evs2) = k \<and>
        (\<forall>b\<in>set (batches evs2). int (length b) = bs) \<and> buf' = []"
      using Cons.IH [OF loop small] by blast
    with evs show ?thesis by auto
  qed
qed

text \<open>
  C4, as amended. Let \<open>batch_size \<ge> 1\<close>, let the parsed documents split into
  \<open>k * batch_size\<close> chunks in total, and let every multiple \<open>j * batch_size\<close> with
  \<open>1 \<le> j \<le> k\<close> be the number of chunks of some prefix of the documents, so that every
  batch boundary falls between two documents. If \<open>ingest_blob\<close> returns its identifiers (no
  call raised), it made exactly \<open>k\<close> calls of \<open>add_documents\<close>, each with exactly \<open>batch_size\<close>
  documents.
\<close>

theorem aligned_batches:
  assumes "1 \<le> bs" and "parser blob = (docs, raised)"
    and "ingest_blob blob parser split add ns bs s = (Inr ids, s', evs)"
    and "\<forall>j. 1 \<le> j \<and> j \<le> k \<longrightarrow> (\<exists>m. int (n_chunks split (take m docs)) = int j * bs)"
    and "int (n_chunks split docs) = int k * bs"
  shows "length (batches evs) = k \<and> (\<forall>b\<in>set (batches evs). int (length b) = bs)"
proof -
  from assms(1,2,3) obtain r1 evs1 buf where
    loop: "ingest_loop split add ns bs docs [] [] s = (r1, s', evs1)"
    and evs: "evs = LazyParse blob # evs1" and "r1 = Inr (buf, ids)"
    by (rule blob_no_final_flush) blast
  then have loop: "ingest_loop split add ns bs docs [] [] s = (Inr (buf, ids), s', evs1)"
    by simp
  from assms(1) have "int (length ([]::document list)) < bs" by simp
  moreover from assms(4) have "\<forall>j. 1 \<le> j \<and> j \<le> k \<longrightarrow>
      (\<exists>m. int (length ([]::document list)) + int (n_chunks split (take m docs)) = int j * bs)"
    by simp
  moreover from assms(5) have
    "int (length ([]::document list)) + int (n_chunks split docs) = int k * bs"
    by simp
  ultimately have "length (batches evs1) = k \<and>
      (\<forall>b\<in>set (batches evs1). int (length b) = bs) \<and> buf = []"
    using loop_aligned [OF assms(1) loop] by blast
  with evs show ?thesis by simp
qed

text \<open>
  C4 as stated fails when a batch boundary falls inside a document: with \<open>batch_size = 2\<close>
  and two documents of one and three chunks, the four chunks are \<open>2 * batch_size\<close>, but the
  buffer is checked only after each document, so there is one call with all four chunks.
\<close>

theorem one_flush_for_two_batches:
  "int (n_chunks split_chars (map page [''a'', ''bcd''])) = 2 * 2 \<and>
   ingest_blob no_blob (pages [''a'', ''bcd'']) split_chars memory_store ''n'' 2 [] =
     (Inr [''a'', ''b'', ''c'', ''d''],
      [chunk ''a'' ''n'', chunk ''b'' ''n'', chunk ''c'' ''n'', chunk ''d'' ''n''],
      [LazyParse no_blob, SplitDocuments (page ''a''), SplitDocuments (page ''bcd''),
       AddDocuments [chunk ''a'' ''n'', chunk ''b'' ''n'', chunk ''c'' ''n'', chunk ''d'' ''n'']
         (Inr [''a'', ''b'', ''c'', ''d''])]) \<and>
   length (batches (events
     (ingest_blob no_blob (pages [''a'', ''bcd'']) split_chars memory_store ''n'' 2 []))) = 1"
  by (simp add: events_def run_simps n_chunks_def)

theorem aligned_batches_witness:
  "(1::int) \<le> 2 \<and>
   pages [''ab'', ''cd''] no_blob = (map page [''ab'', ''cd''], None) \<and>
   ingest_blob no_blob (pages [''ab'', ''cd'']) split_chars memory_store ''n'' 2 [] =
     (Inr [''a'', ''b'', ''c'', ''d''],
      [chunk ''a'' ''n'', chunk ''b'' ''n'', chunk ''c'' ''n'', chunk ''d'' ''n''],
      [LazyParse no_blob, SplitDocuments (page ''ab''),
       AddDocuments [chunk ''a'' ''n'', chunk ''b'' ''n''] (Inr [''a'', ''b'']),
       SplitDocuments (page ''cd''),
       AddDocuments [chunk ''c'' ''n'', chunk ''d'' ''n''] (Inr [''c'', ''d''])]) \<and>
   int (n_chunks split_chars (take 1 (map page [''ab'', ''cd'']))) = int 1 * 2 \<and>
   int (n_chunks split_chars (take 2 (map page [''ab'', ''cd'']))) = int 2 * 2 \<and>
   int (n_chunks split_chars (map page [''ab'', ''cd''])) = int 2 * 2 \<and>
   length (batches
     [LazyParse no_blob, SplitDocuments (page ''ab''),
      AddDocuments [chunk ''a'' ''n'', chunk ''b'' ''n''] (Inr [''a'', ''b'']),
      SplitDocuments (page ''cd''),
      AddDocuments [chunk ''c'' ''n'', chunk ''d'' ''n''] (Inr [''c'', ''d''])]) = 2"
proof -
  have b: "(1::int) \<le> 2" by simp
  have p: "pages [''ab'', ''cd''] no_blob = (map page [''ab'', ''cd''], None)"
    by (simp add: pages_def)
  have r: "ingest_blob no_blob (pages [''ab'', ''cd'']) split_chars memory_store ''n'' 2 [] =
     (Inr [''a'', ''b'', ''c'', ''d''],
      [chunk ''a'' ''n'', chunk ''b'' ''n'', chunk ''c'' ''n'', chunk ''d'' ''n''],
      [LazyParse no_blob, SplitDocuments (page ''ab''),
       AddDocuments [chunk ''a'' ''n'', chunk ''b'' ''n''] (Inr [''a'', ''b'']),
       SplitDocuments (page ''cd''),
       AddDocuments [chunk ''c'' ''n'', chunk ''d'' ''n''] (Inr [''c'', ''d''])])"
    by (simp add: run_simps)
  have c1: "int (n_chunks split_chars (take 1 (map page [''ab'', ''cd'']))) = int 1 * 2"
    and c2: "int (n_chunks split_chars (take 2 (map page [''ab'', ''cd'']))) = int 2 * 2"
    and t: "int (n_chunks split_chars (map page [''ab'', ''cd''])) = int 2 * 2"
    by (simp_all add: split_chars_def page_def)
  have a: "\<forall>j. 1 \<le> j \<and> j \<le> 2 \<longrightarrow>
      (\<exists>m. int (n_chunks split_chars (take m (map page [''ab'', ''cd'']))) = int j * 2)"
  proof (intro allI impI)
    fix j :: nat
    assume "1 \<le> j \<and> j \<le> 2"
    then have "j = 1 \<or> j = 2" by auto
    with c1 c2 show "\<exists>m. int (n_chunks split_chars (take m (map page [''ab'', ''cd''])))
        = int j * 2"
      by blast
  qed
  from aligned_batches
    [where parser = "pages [''ab'', ''cd'']" and blob = no_blob, OF b p r a t] b p r c1 c2 t
  show ?thesis by simp
qed

end
